theory Spec2Isabelle
  imports Main "HOL-Library.Word"
begin

section \<open>net-copy: the sender (cmd/send.go)\<close>

text \<open>
  A shallow embedding of the \<^verbatim>\<open>send\<close> command: the enumeration of the working
  directory (\<^verbatim>\<open>collectFiles\<close>), the per-file sender (\<^verbatim>\<open>sendFile\<close>) and the
  round loop of \<^verbatim>\<open>sendCmd.RunE\<close>.

  What the program does to the outside world is recorded as a trace of events: every call
  of \<^verbatim>\<open>cln.SendMessage\<close> is one frame on the wire, every \<^verbatim>\<open>fmt.Printf\<close> and
  \<^verbatim>\<open>fmt.Fprintf(os.Stderr, ...)\<close> is a console event, and the \<^verbatim>\<open>go\<close> statement and
  \<^verbatim>\<open>wg.Done()\<close> of every goroutine are events too. What the outside world does to the
  program (the directory tree, the results of \<^verbatim>\<open>Read\<close>, the order in which the Go
  scheduler runs the goroutines) is a parameter of the model.

  The counters \<^verbatim>\<open>sentChunks\<close> and \<^verbatim>\<open>lastPercentage\<close> (\<^verbatim>\<open>int\<close>), and the file size
  (\<^verbatim>\<open>int64\<close>), are natural numbers: they start at 0, only grow, and a file of
  \<open>2 ^ 63\<close> chunks is not in reach. \<^verbatim>\<open>conf.Threads\<close> is a \<^verbatim>\<open>uint16\<close> and is modelled as
  a 16-bit word, with the loop counter that is compared with it. \<^verbatim>\<open>uuid.New()\<close> draws
  from a supply of fresh identifiers, a counter. The buffer size is positive
  (\<^verbatim>\<open>init\<close> sets it to 5), and every file is finite: its reads come to an end.

  The two earlier, sequential versions of \<^verbatim>\<open>send.go\<close> that the repository's history
  holds are not modelled; the model is the current \<^verbatim>\<open>cmd/send.go\<close>.
\<close>

subsection \<open>Data\<close>

type_synonym byte = "8 word"
type_synonym uuid = nat
type_synonym path = "string list"

text \<open>
  The errors the sender can meet. \<^verbatim>\<open>io.EOF\<close> is the only one the code tells apart from
  the others.
\<close>

datatype error =
  EOF | ErrInvalid | ErrPermission | ErrNotExist | EISDIR | ENOTDIR | ErrIO | ErrRel | ErrConnect

text \<open>
  \<^verbatim>\<open>ncproto.Config\<close>, \<^verbatim>\<open>ncproto.File\<close> and \<^verbatim>\<open>ncproto.FileChunk\<close>, with the fields
  that \<^verbatim>\<open>send.go\<close> reads and writes. \<^verbatim>\<open>Threads\<close> and \<^verbatim>\<open>Port\<close> are \<^verbatim>\<open>uint16\<close>.
  A path is the list of its components.
\<close>

record Config =
  Hostname :: string
  Port :: "16 word"
  WorkingDirectory :: path
  Threads :: "16 word"
  ConnectionID :: uuid
  ReadBufferSize :: nat

record File =
  ID :: uuid
  ConnectionID :: uuid
  FileSize :: nat
  Name :: string
  RelativePath :: path

record FileChunk =
  ID :: uuid
  ConnectionID :: uuid
  Data :: "byte list"
  Seq :: nat

text \<open>
  The messages handed to \<^verbatim>\<open>SendMessage\<close>. \<^verbatim>\<open>MsgClose\<close> is the Close frame of the
  protocol description; \<^verbatim>\<open>send.go\<close> has no statement that sends it.
\<close>

datatype msg =
    MsgConfig Config
  | MsgFile File
  | MsgFileChunk FileChunk
  | MsgClose
  | MsgConnectionClose uuid

datatype console =
    Header File
  | Bar string
  | FinalBar
  | ClosingConnection
  | ErrorOpeningFile File
  | ErrorReadingFile File
  | ErrorReading path error
  | ErrorRel error

datatype event =
    Send msg
  | Stdout console
  | Stderr console
  | Go File
  | WgDone File
  | ConnectionClosed

subsection \<open>The file system\<close>

text \<open>
  A node of the directory tree carries its own name. A directory is readable (with its
  entries in the order \<^verbatim>\<open>ioutil.ReadDir\<close> lists them) or not. A regular file has its
  contents and, possibly, a fault: it cannot be opened, or its reads fail after a number
  of successful ones. Any other entry that is not a directory (a symbolic link, a device,
  a named pipe, a socket) has the size its \<^verbatim>\<open>FileInfo\<close> reports and what
  \<^verbatim>\<open>os.Open\<close> does on it: \<open>None\<close> when the open fails, otherwise the results
  \<open>(data, err)\<close> of the successive calls of \<^verbatim>\<open>Read\<close>. The tree does not change
  during a run.
\<close>

type_synonym read_result = "byte list \<times> error option"

datatype fault = NoFault | OpenFails | ReadFails nat

datatype node =
    Dir string "node list"
  | UnreadableDir string
  | Regular string "byte list" fault
  | Special string nat "read_result list option"

fun NodeName :: "node \<Rightarrow> string" where
  "NodeName (Dir n es) = n"
| "NodeName (UnreadableDir n) = n"
| "NodeName (Regular n content flt) = n"
| "NodeName (Special n s opn) = n"

fun IsDir :: "node \<Rightarrow> bool" where
  "IsDir (Dir n es) = True"
| "IsDir (UnreadableDir n) = True"
| "IsDir (Regular n content flt) = False"
| "IsDir (Special n s opn) = False"

fun IsRegular :: "node \<Rightarrow> bool" where
  "IsRegular (Regular n content flt) = True"
| "IsRegular v = False"

fun Size :: "node \<Rightarrow> nat" where
  "Size (Regular n content flt) = length content"
| "Size (Special n s opn) = s"
| "Size v = 0"

fun ReadDir :: "node \<Rightarrow> error + node list" where
  "ReadDir (Dir n es) = Inr es"
| "ReadDir (UnreadableDir n) = Inl ErrPermission"
| "ReadDir (Regular n content flt) = Inl ENOTDIR"
| "ReadDir (Special n s opn) = Inl ENOTDIR"

text \<open>
  An open file: \<^verbatim>\<open>nil\<close> (what \<^verbatim>\<open>os.Open\<close> returns with an error) or the results its
  reads will give; once they are used up, \<^verbatim>\<open>Read\<close> returns \<^verbatim>\<open>(0, io.EOF)\<close>.
  \<^verbatim>\<open>Read\<close> on a \<^verbatim>\<open>nil\<close> file returns \<^verbatim>\<open>(0, os.ErrInvalid)\<close>. A read never delivers
  more than the buffer holds, and the buffer keeps its length. \<^verbatim>\<open>Read\<close> returns the
  count, the error, the buffer as the read leaves it, and the file.
\<close>

datatype handle = NilFp | Fp "read_result list"

fun Read :: "handle \<Rightarrow> byte list \<Rightarrow> nat \<times> error option \<times> byte list \<times> handle" where
  "Read NilFp buf = (0, Some ErrInvalid, buf, NilFp)"
| "Read (Fp []) buf = (0, Some EOF, buf, Fp [])"
| "Read (Fp ((d, e) # rs)) buf =
     (let d' = take (length buf) d
      in (length d', e, d' @ drop (length d') buf, Fp rs))"

fun remaining :: "handle \<Rightarrow> nat" where
  "remaining NilFp = 0"
| "remaining (Fp rs) = length rs"

text \<open>
  The reads of a regular file into a buffer of \<open>b\<close> bytes: each read fills the buffer
  until the contents run out. The buffer of \<^verbatim>\<open>send.go\<close> is never empty (\<^verbatim>\<open>init\<close> sets
  \<^verbatim>\<open>conf.ReadBufferSize\<close> and no flag changes it); reads into an empty buffer, which
  return \<^verbatim>\<open>(0, nil)\<close> for ever, are outside this model.
\<close>

function os_reads :: "nat \<Rightarrow> byte list \<Rightarrow> read_result list" where
  "os_reads b xs =
     (if b = 0 \<or> xs = [] then [] else (take b xs, None) # os_reads b (drop b xs))"
  by pat_completeness auto
termination
  by (relation "measure (\<lambda>(b, xs). length xs)") auto

declare os_reads.simps [simp del]

text \<open>
  Looking a path up in the tree, and \<^verbatim>\<open>os.Open\<close> for reads into buffers of \<open>b\<close>
  bytes. Opening a directory succeeds in Go and its reads fail.
\<close>

fun lookup :: "node \<Rightarrow> path \<Rightarrow> node option"
  and lookup_in :: "node list \<Rightarrow> string \<Rightarrow> path \<Rightarrow> node option" where
  "lookup v [] = Some v"
| "lookup (Dir n es) (x # p) = lookup_in es x p"
| "lookup (UnreadableDir n) (x # p) = None"
| "lookup (Regular n content flt) (x # p) = None"
| "lookup (Special n s opn) (x # p) = None"
| "lookup_in [] x p = None"
| "lookup_in (v # vs) x p = (if NodeName v = x then lookup v p else lookup_in vs x p)"

fun open_regular :: "nat \<Rightarrow> byte list \<Rightarrow> fault \<Rightarrow> handle \<times> error option" where
  "open_regular b content NoFault = (Fp (os_reads b content), None)"
| "open_regular b content OpenFails = (NilFp, Some ErrPermission)"
| "open_regular b content (ReadFails k) =
     (Fp (take k (os_reads b content) @ [([], Some ErrIO)]), None)"

fun open_special :: "read_result list option \<Rightarrow> handle \<times> error option" where
  "open_special None = (NilFp, Some ErrPermission)"
| "open_special (Some rs) = (Fp rs, None)"

fun open_node :: "nat \<Rightarrow> node \<Rightarrow> handle \<times> error option" where
  "open_node b (Dir n es) = (Fp [([], Some EISDIR)], None)"
| "open_node b (UnreadableDir n) = (NilFp, Some ErrPermission)"
| "open_node b (Regular n content flt) = open_regular b content flt"
| "open_node b (Special n s opn) = open_special opn"

text \<open>
  The file system seen by the program is the tree \<open>root\<close> standing at the path \<open>wd\<close>;
  nothing else exists.
\<close>

definition os_Open :: "nat \<Rightarrow> path \<Rightarrow> node \<Rightarrow> path \<Rightarrow> handle \<times> error option" where
  "os_Open b wd root p =
     (if take (length wd) p = wd
      then (case lookup root (drop (length wd) p) of
              None \<Rightarrow> (NilFp, Some ErrNotExist)
            | Some v \<Rightarrow> open_node b v)
      else (NilFp, Some ErrNotExist))"

text \<open>
  Modelled from the spec: \<^verbatim>\<open>File.FullFilePath\<close> is a method of package \<^verbatim>\<open>ncproto\<close>,
  whose source is not part of \<^verbatim>\<open>cmd\<close>; the source file is opened at
  root/relativePath/name.
\<close>

definition FullFilePath :: "File \<Rightarrow> Config \<Rightarrow> path" where
  "FullFilePath file c = WorkingDirectory c @ RelativePath file @ [Name file]"

subsection \<open>sendFile\<close>

text \<open>
  The read loop of \<^verbatim>\<open>sendFile\<close>. \<open>gp\<close> stands for \<^verbatim>\<open>File.GetProgress\<close> of package
  \<^verbatim>\<open>ncproto\<close>, which returns the bar and the progress bucket. The loop's variables are
  the open file, the read buffer, \<^verbatim>\<open>sentChunks\<close> and \<^verbatim>\<open>lastPercentage\<close>; the result is
  the list of events of the loop, in order.
\<close>

lemma Read_remaining:
  assumes "Read fp buf = (n, err, buf', fp')"
    and "\<not> (n = 0 \<and> err = Some EOF)" and "\<not> (err \<noteq> None \<and> err \<noteq> Some EOF)"
  shows "remaining fp' < remaining fp"
  using assms by (cases "(fp, buf)" rule: Read.cases) (auto simp: Let_def)

type_synonym progress = "File \<Rightarrow> nat \<Rightarrow> nat \<Rightarrow> Config \<Rightarrow> string \<times> int"

function read_loop ::
  "progress \<Rightarrow> Config \<Rightarrow> File \<Rightarrow> handle \<Rightarrow> byte list \<Rightarrow> nat \<Rightarrow> int \<Rightarrow> event list" where
  "read_loop gp c file fp readBuffer sentChunks lastPercentage =
     (case Read fp readBuffer of (n, err, readBuffer', fp') \<Rightarrow>
        if n = 0 \<and> err = Some EOF then []
        else if err \<noteq> None \<and> err \<noteq> Some EOF then [Stderr (ErrorReadingFile file)]
        else
          let fchunk = \<lparr> FileChunk.ID = File.ID file,
                         FileChunk.ConnectionID = Config.ConnectionID c,
                         Data = take n readBuffer',
                         Seq = sentChunks \<rparr>;
              (bar, progress) = gp file sentChunks 25 c
          in (if lastPercentage < progress then [Stdout (Bar bar)] else [])
             @ Send (MsgFileChunk fchunk)
             # read_loop gp c file fp' readBuffer' (sentChunks + 1)
                 (if lastPercentage < progress then progress else lastPercentage))"
  by pat_completeness auto
termination
  apply (relation "measure (\<lambda>(gp, c, f, fp, buf, sent, lastp). remaining fp)")
   apply simp
  apply (auto dest!: sym [of "(_, _)" "Read _ _"] intro: Read_remaining)
  done

declare read_loop.simps [simp del]

text \<open>
  \<^verbatim>\<open>sendFile\<close>: the events of one goroutine. The open error is reported and the function
  goes on: there is no \<^verbatim>\<open>return\<close> in that branch. The deferred \<^verbatim>\<open>wg.Done()\<close> runs last.
\<close>

definition sendFile :: "progress \<Rightarrow> Config \<Rightarrow> node \<Rightarrow> File \<Rightarrow> event list" where
  "sendFile gp c root file =
     Stdout (Header file)
     # (case os_Open (ReadBufferSize c) (WorkingDirectory c) root (FullFilePath file c) of (fp, err) \<Rightarrow>
          (if err \<noteq> None then [Stderr (ErrorOpeningFile file)] else [])
          @ Send (MsgFile file)
          # read_loop gp c file fp (replicate (ReadBufferSize c) 0) 0 0
          @ [Stdout FinalBar, WgDone file])"

subsection \<open>collectFiles\<close>

text \<open>
  \<^verbatim>\<open>filepath.Rel(basepath, targpath)\<close> for a target below the base: the components
  below the base. \<^verbatim>\<open>collectFiles\<close> only asks for a directory it reached from
  \<^verbatim>\<open>conf.WorkingDirectory\<close>; for any other pair this model answers with the error.
\<close>

definition Rel :: "path \<Rightarrow> path \<Rightarrow> error + path" where
  "Rel basepath targpath =
     (if take (length basepath) targpath = basepath
      then Inr (drop (length basepath) targpath)
      else Inl ErrRel)"

text \<open>
  The state \<^verbatim>\<open>collectFiles\<close> works on: the list it pushes the descriptors to, the
  supply of identifiers (\<^verbatim>\<open>uuid.New()\<close> returns an identifier it has not returned
  before: the next number), and what was printed.
\<close>

record collect_state =
  files :: "File list"
  next_uuid :: uuid
  printed :: "event list"

text \<open>
  \<^verbatim>\<open>collectFiles(dir, files)\<close>, with the node standing at \<open>dir\<close>. When
  \<^verbatim>\<open>ioutil.ReadDir\<close> fails, the error is printed and the loop runs over the \<^verbatim>\<open>nil\<close>
  slice. \<open>collect_range\<close> is the \<^verbatim>\<open>for _, v := range fs\<close> loop.
\<close>

lemma ReadDir_size: "ReadDir d = Inr fs \<Longrightarrow> size_list size fs < size d"
  by (cases d) auto

function collectFiles :: "Config \<Rightarrow> path \<Rightarrow> node \<Rightarrow> collect_state \<Rightarrow> collect_state"
  and collect_range :: "Config \<Rightarrow> path \<Rightarrow> node list \<Rightarrow> collect_state \<Rightarrow> collect_state" where
  "collectFiles c dir d st =
     (case ReadDir d of
        Inl err \<Rightarrow>
          collect_range c dir [] (st\<lparr>printed := printed st @ [Stderr (ErrorReading dir err)]\<rparr>)
      | Inr fs \<Rightarrow> collect_range c dir fs st)"
| "collect_range c dir [] st = st"
| "collect_range c dir (v # vs) st =
     collect_range c dir vs
       (if IsDir v then collectFiles c (dir @ [NodeName v]) v st
        else (case Rel (WorkingDirectory c) dir of
                Inl err \<Rightarrow> st\<lparr>printed := printed st @ [Stderr (ErrorRel err)]\<rparr>
              | Inr rel \<Rightarrow>
                  st\<lparr>files := files st @
                       [\<lparr> File.ID = next_uuid st,
                          File.ConnectionID = Config.ConnectionID c,
                          FileSize = Size v,
                          Name = NodeName v,
                          RelativePath = rel \<rparr>],
                     next_uuid := Suc (next_uuid st)\<rparr>))"
  by pat_completeness auto

termination
  apply (relation "measure (\<lambda>x. case x of
                      Inl (c, dir, d, st) \<Rightarrow> 2 * size d + 2
                    | Inr (c, dir, vs, st) \<Rightarrow> 2 * size_list size vs + 1)")
     apply (auto dest: ReadDir_size)
  done

subsection \<open>The round loop of sendCmd.RunE\<close>

text \<open>
  The inner loop \<^verbatim>\<open>for i := uint16(0); i < conf.Threads; i++\<close> as the main goroutine
  runs it: it takes files from the front of the list \<open>queue\<close> and starts a goroutine for each,
  until \<open>i\<close> reaches \<^verbatim>\<open>conf.Threads\<close> or the list is empty, in which case it sets
  \<^verbatim>\<open>breakAll\<close>. The result is the files whose goroutines were started, in order, what
  is left of the list, and \<^verbatim>\<open>breakAll\<close>. The counter cannot wrap around: it is
  incremented only while it is below \<^verbatim>\<open>conf.Threads\<close>.
\<close>

lemma word_Suc_less: "i < t \<Longrightarrow> unat (i + 1) = Suc (unat i)" for i t :: "16 word"
  by unat_arith

function spawn_loop :: "16 word \<Rightarrow> 16 word \<Rightarrow> File list \<Rightarrow> File list \<times> File list \<times> bool" where
  "spawn_loop i threads queue =
     (if i < threads then
        (case queue of
           [] \<Rightarrow> ([], [], True)
         | file # queue' \<Rightarrow>
             (case spawn_loop (i + 1) threads queue' of
                (started, rest, breakAll) \<Rightarrow> (file # started, rest, breakAll)))
      else ([], queue, False))"
  by pat_completeness auto
termination
  by (relation "measure (\<lambda>(i, threads, queue). unat threads - unat i)")
     (auto simp add: word_Suc_less word_less_nat_alt)

declare spawn_loop.simps [simp del]

text \<open>
  One round. A goroutine is the main one or the sender of a file; a sender that has been
  started is the file with the events it still has to perform. Every event is one step:
  \<^verbatim>\<open>SendMessage\<close> writes a whole frame (package \<^verbatim>\<open>ncclient\<close> guards the connection),
  and so is every line printed.

  The order in which the goroutines run is the schedule \<open>sch\<close>, one number a step:
  \<open>0\<close> lets the main goroutine execute its next \<^verbatim>\<open>go sendFile(...)\<close>, \<open>n + 1\<close> lets
  the \<open>n\<close>-th started sender perform its next event. A number that names a goroutine
  that cannot run (or a schedule that has run out) lets the main goroutine run if it
  still has files to start, and the first sender that can run otherwise. The round is
  over when the main goroutine has left the inner loop and every sender has called
  \<^verbatim>\<open>wg.Done()\<close>: that is when \<^verbatim>\<open>wg.Wait()\<close> returns.
\<close>

datatype goroutine = Main | Sender File

type_synonym trace = "(goroutine \<times> event) list"

type_synonym sender = "File \<times> event list"

definition runnable :: "sender list \<Rightarrow> nat \<Rightarrow> bool" where
  "runnable act i = (i < length act \<and> snd (act ! i) \<noteq> [])"

fun first_runnable :: "sender list \<Rightarrow> nat" where
  "first_runnable [] = 0"
| "first_runnable (t # ts) = (if snd t \<noteq> [] then 0 else Suc (first_runnable ts))"

definition all_done :: "sender list \<Rightarrow> bool" where
  "all_done act = list_all (\<lambda>t. snd t = []) act"

definition choice :: "nat list \<Rightarrow> nat" where
  "choice sch = (case sch of [] \<Rightarrow> 0 | n # _ \<Rightarrow> n)"

definition pick :: "nat \<Rightarrow> sender list \<Rightarrow> nat" where
  "pick n act = (if 0 < n \<and> runnable act (n - 1) then n - 1 else first_runnable act)"

definition work :: "(File \<Rightarrow> event list) \<Rightarrow> File list \<Rightarrow> sender list \<Rightarrow> nat" where
  "work prog pend act =
     sum_list (map (\<lambda>f. Suc (length (prog f))) pend) + sum_list (map (\<lambda>t. length (snd t)) act)"

lemma first_runnable_runnable: "\<not> all_done act \<Longrightarrow> runnable act (first_runnable act)"
  by (induction act) (auto simp: all_done_def runnable_def)

lemma sum_list_decrease:
  fixes ls :: "nat list"
  assumes "i < length ls" "0 < ls ! i"
  shows "sum_list (ls[i := ls ! i - 1]) < sum_list ls"
proof -
  have "ls ! i \<le> sum_list ls"
    using assms(1) by (intro member_le_sum_list) simp_all
  moreover have "sum_list (ls[i := ls ! i - 1]) = sum_list ls + (ls ! i - 1) - ls ! i"
    using assms(1) by (rule sum_list_update)
  ultimately show ?thesis using assms(2) by linarith
qed

lemma work_step:
  assumes "runnable act i"
  shows "work prog pend (act[i := (fst (act ! i), tl (snd (act ! i)))]) < work prog pend act"
proof -
  from assms have i: "i < length act" and ne: "snd (act ! i) \<noteq> []"
    by (simp_all add: runnable_def)
  let ?ls = "map (\<lambda>t. length (snd t)) act"
  have "map (\<lambda>t. length (snd t)) (act[i := (fst (act ! i), tl (snd (act ! i)))])
          = ?ls[i := ?ls ! i - 1]"
    using i by (simp add: map_update)
  moreover have "sum_list (?ls[i := ?ls ! i - 1]) < sum_list ?ls"
    using i ne by (intro sum_list_decrease) simp_all
  ultimately show ?thesis
    by (simp add: work_def)
qed

lemma pick_runnable:
  assumes "\<not> (pend = [] \<and> all_done act)"
    and "\<not> (pend \<noteq> [] \<and> (n = 0 \<or> \<not> runnable act (n - 1)))"
  shows "runnable act (pick n act)"
proof (cases "0 < n \<and> runnable act (n - 1)")
  case True
  then show ?thesis by (simp add: pick_def)
next
  case False
  with assms have "\<not> all_done act" by auto
  with False show ?thesis
    by (simp add: pick_def first_runnable_runnable)
qed

function round_trace ::
  "(File \<Rightarrow> event list) \<Rightarrow> nat list \<Rightarrow> File list \<Rightarrow> sender list \<Rightarrow> trace" where
  "round_trace prog sch pend act =
     (if pend = [] \<and> all_done act then []
      else if pend \<noteq> [] \<and> (choice sch = 0 \<or> \<not> runnable act (choice sch - 1)) then
        (Main, Go (hd pend))
        # round_trace prog (tl sch) (tl pend) (act @ [(hd pend, prog (hd pend))])
      else
        let i = pick (choice sch) act
        in (Sender (fst (act ! i)), hd (snd (act ! i)))
           # round_trace prog (tl sch) pend (act[i := (fst (act ! i), tl (snd (act ! i)))]))"
  by pat_completeness auto
termination
proof (relation "measure (\<lambda>(prog, sch, pend, act). work prog pend act)", goal_cases)
  case 1
  show ?case by simp
next
  case (2 prog sch pend act)
  then show ?case
    by (cases pend) (simp_all add: work_def)
next
  case (3 prog sch pend act i)
  then have "runnable act i"
    using pick_runnable [of pend act "choice sch"] by simp
  then show ?case
    by (simp add: work_step)
qed

declare round_trace.simps [simp del]

text \<open>
  The outer loop \<^verbatim>\<open>for { ... wg.Wait(); if breakAll { break } }\<close>, with one schedule for
  every round. The loop may run for ever, so the model runs at most \<open>n\<close> rounds of it:
  the result is the trace of these rounds and whether the loop was left.
\<close>

definition sched_of :: "nat list list \<Rightarrow> nat list" where
  "sched_of scheds = (case scheds of [] \<Rightarrow> [] | s # _ \<Rightarrow> s)"

fun round_loop ::
  "nat \<Rightarrow> (File \<Rightarrow> event list) \<Rightarrow> 16 word \<Rightarrow> nat list list \<Rightarrow> File list \<Rightarrow> trace \<times> bool" where
  "round_loop 0 prog threads scheds queue = ([], False)"
| "round_loop (Suc n) prog threads scheds queue =
     (case spawn_loop 0 threads queue of
        (started, rest, breakAll) \<Rightarrow>
          if breakAll
          then (round_trace prog (sched_of scheds) started [], True)
          else (case round_loop n prog threads (tl scheds) rest of
                  (tr, left) \<Rightarrow> (round_trace prog (sched_of scheds) started [] @ tr, left)))"

text \<open>
  \<^verbatim>\<open>sendCmd.RunE\<close>, with at most \<open>n\<close> rounds of its loop. \<open>connect\<close> is the error of
  \<^verbatim>\<open>ncclient.Connect\<close>, if any; \<open>uuid0\<close> is the first identifier \<^verbatim>\<open>uuid.New()\<close>
  will return. The result is the trace of the run and how it went: the function returned
  (with an error or \<^verbatim>\<open>nil\<close>), or the loop is still running after \<open>n\<close> rounds. The
  deferred \<^verbatim>\<open>cln.Connection.Close()\<close> is the last event of a run that returns after
  connecting.
\<close>

datatype outcome = Returned "error option" | Running

definition RunE ::
  "nat \<Rightarrow> progress \<Rightarrow> Config \<Rightarrow> error option \<Rightarrow> node \<Rightarrow> uuid \<Rightarrow> nat list list
     \<Rightarrow> trace \<times> outcome" where
  "RunE n gp c connect root uuid0 scheds =
     (case connect of
        Some err \<Rightarrow> ([], Returned (Some err))
      | None \<Rightarrow>
          let st = collectFiles c (WorkingDirectory c) root
                     \<lparr> files = [], next_uuid = uuid0, printed = [] \<rparr>;
              (tr, left) = round_loop n (sendFile gp c root) (Threads c) scheds (files st);
              start = (Main, Send (MsgConfig c)) # map (Pair Main) (printed st)
          in if left
             then (start @ tr
                   @ [(Main, Stdout ClosingConnection),
                      (Main, Send (MsgConnectionClose (Config.ConnectionID c))),
                      (Main, ConnectionClosed)],
                   Returned None)
             else (start @ tr, Running))"

subsection \<open>The transfer session\<close>

text \<open>
  Modelled from the spec: the Transfer Session and the Frame Codec are in packages
  \<^verbatim>\<open>ncproto\<close> and \<^verbatim>\<open>ncclient\<close>, whose source is not part of \<^verbatim>\<open>cmd\<close>. The session
  ``exposes send(message): serializes the message to a frame via the Frame Codec and writes
  it to the transport, holding the guard for the duration of the write''.

  The codec is the parameter \<open>encode\<close>. A worker is what it is writing, if it is inside
  \<open>send\<close> (the bytes of its frame that are not yet on the wire), and the messages it
  still has to send. A step of a worker that is not inside \<open>send\<close> takes the guard and
  serializes its next message; a step inside \<open>send\<close> writes one byte, or gives the guard
  back when the frame is written. A write is cut into single bytes, the smallest steps it
  can be cut into. The session has the guard (the index of the worker that holds it), the
  bytes written to the transport, and a record of the frames begun, with their workers.
\<close>

type_synonym worker = "byte list option \<times> msg list"

record session =
  guard :: "nat option"
  wire :: "byte list"
  sent :: "(nat \<times> msg) list"

fun send_step :: "(msg \<Rightarrow> byte list) \<Rightarrow> nat \<Rightarrow> worker \<Rightarrow> session \<Rightarrow> worker \<times> session" where
  "send_step encode i (None, m # ms) st =
     ((Some (encode m), ms), st\<lparr>guard := Some i, sent := sent st @ [(i, m)]\<rparr>)"
| "send_step encode i (Some (b # bs), ms) st = ((Some bs, ms), st\<lparr>wire := wire st @ [b]\<rparr>)"
| "send_step encode i (Some [], ms) st = ((None, ms), st\<lparr>guard := None\<rparr>)"
| "send_step encode i (None, []) st = ((None, []), st)"

text \<open>
  A worker inside \<open>send\<close> can go on; a worker outside needs a message to send and the
  guard to be free. The schedule names the worker to run, as in a round; when that worker
  cannot run, the first one that can run does.
\<close>

fun can_step :: "nat option \<Rightarrow> worker \<Rightarrow> bool" where
  "can_step g (Some bs, ms) = True"
| "can_step g (None, ms) = (ms \<noteq> [] \<and> g = None)"

fun first_ready :: "nat option \<Rightarrow> worker list \<Rightarrow> nat" where
  "first_ready g [] = 0"
| "first_ready g (w # ws) = (if can_step g w then 0 else Suc (first_ready g ws))"

definition pick_worker :: "nat \<Rightarrow> nat option \<Rightarrow> worker list \<Rightarrow> nat" where
  "pick_worker n g ws = (if n < length ws \<and> can_step g (ws ! n) then n else first_ready g ws)"

fun weight :: "(msg \<Rightarrow> byte list) \<Rightarrow> worker \<Rightarrow> nat" where
  "weight encode (w, ms) =
     (case w of None \<Rightarrow> 0 | Some bs \<Rightarrow> Suc (length bs))
     + sum_list (map (\<lambda>m. length (encode m) + 2) ms)"

lemma first_ready_ready:
  "list_ex (can_step g) ws \<Longrightarrow> first_ready g ws < length ws \<and> can_step g (ws ! first_ready g ws)"
  by (induction ws) auto

lemma pick_worker_ready:
  "list_ex (can_step g) ws \<Longrightarrow>
     pick_worker n g ws < length ws \<and> can_step g (ws ! pick_worker n g ws)"
  by (simp add: pick_worker_def first_ready_ready)

lemma send_step_weight:
  "can_step (guard st) w \<Longrightarrow> weight encode (fst (send_step encode i w st)) < weight encode w"
  by (cases "(encode, i, w, st)" rule: send_step.cases) auto

lemma sum_list_map_update_less:
  fixes f :: "'a \<Rightarrow> nat"
  assumes "i < length xs" "f y < f (xs ! i)"
  shows "sum_list (map f (xs[i := y])) < sum_list (map f xs)"
proof -
  let ?ls = "map f xs"
  have "?ls ! i \<le> sum_list ?ls"
    using assms(1) by (intro member_le_sum_list) simp_all
  moreover have "sum_list (?ls[i := f y]) = sum_list ?ls + f y - ?ls ! i"
    using assms(1) by (intro sum_list_update) simp
  ultimately show ?thesis
    using assms by (simp add: map_update)
qed

function session_run ::
  "(msg \<Rightarrow> byte list) \<Rightarrow> nat list \<Rightarrow> worker list \<Rightarrow> session \<Rightarrow> session" where
  "session_run encode sch ws st =
     (if list_ex (can_step (guard st)) ws then
        let i = pick_worker (choice sch) (guard st) ws
        in session_run encode (tl sch)
             (ws[i := fst (send_step encode i (ws ! i) st)])
             (snd (send_step encode i (ws ! i) st))
      else st)"
  by pat_completeness auto
termination
proof (relation "measure (\<lambda>(encode, sch, ws, st). sum_list (map (weight encode) ws))", goal_cases)
  case 1
  show ?case by simp
next
  case (2 encode sch ws st i)
  with pick_worker_ready [of "guard st" ws "choice sch"]
  have "i < length ws" "can_step (guard st) (ws ! i)"
    by simp_all
  then show ?case
    by (simp add: sum_list_map_update_less send_step_weight)
qed

declare session_run.simps [simp del]

definition send_all :: "(msg \<Rightarrow> byte list) \<Rightarrow> nat list \<Rightarrow> msg list list \<Rightarrow> session" where
  "send_all encode sch mss =
     session_run encode sch (map (Pair None) mss) \<lparr> guard = None, wire = [], sent = [] \<rparr>"

text \<open>
  What holds of the workers and the session at every step: only the worker that holds the
  guard is inside \<open>send\<close>; the wire, followed by what that worker has still to write, is
  the frames begun, one after the other; and the frames a worker has begun, followed by
  the messages it has still to send, are the messages it was given.
\<close>

definition session_inv ::
  "(msg \<Rightarrow> byte list) \<Rightarrow> msg list list \<Rightarrow> worker list \<Rightarrow> session \<Rightarrow> bool" where
  "session_inv encode mss ws st \<longleftrightarrow>
     length ws = length mss
     \<and> (\<forall>i < length ws. fst (ws ! i) \<noteq> None \<longleftrightarrow> guard st = Some i)
     \<and> (\<forall>i. guard st = Some i \<longrightarrow> i < length ws)
     \<and> wire st @ (case guard st of None \<Rightarrow> [] | Some i \<Rightarrow> the (fst (ws ! i)))
         = concat (map (encode \<circ> snd) (sent st))
     \<and> (\<forall>i < length ws. map snd (filter (\<lambda>x. fst x = i) (sent st)) @ snd (ws ! i) = mss ! i)"

section \<open>What the claims speak of\<close>

subsection \<open>Frames and events of a trace\<close>

text \<open>
  The FileChunk frames among the events of a sender, the frames of a trace, the events
  of one goroutine in a trace, and the chunks of a trace that carry the identifier of a
  file: the receiver tells the chunks of the files apart by this identifier.
\<close>

fun chunks :: "event list \<Rightarrow> FileChunk list" where
  "chunks [] = []"
| "chunks (Send (MsgFileChunk ch) # es) = ch # chunks es"
| "chunks (e # es) = chunks es"

fun frames :: "trace \<Rightarrow> msg list" where
  "frames [] = []"
| "frames ((g, Send m) # tr) = m # frames tr"
| "frames (x # tr) = frames tr"

definition events_of :: "goroutine \<Rightarrow> trace \<Rightarrow> event list" where
  "events_of g tr = map snd (filter (\<lambda>x. fst x = g) tr)"

definition chunks_for :: "File \<Rightarrow> trace \<Rightarrow> FileChunk list" where
  "chunks_for f tr = filter (\<lambda>ch. FileChunk.ID ch = File.ID f) (chunks (map snd tr))"

text \<open>
  The events that end a run that returns, and the descriptors of round \<open>r\<close> when every
  round takes up to \<open>k\<close> descriptors from the front of the queue.
\<close>

definition closing :: "Config \<Rightarrow> trace" where
  "closing c = [(Main, Stdout ClosingConnection),
                (Main, Send (MsgConnectionClose (Config.ConnectionID c))),
                (Main, ConnectionClosed)]"

definition batch :: "nat \<Rightarrow> nat \<Rightarrow> File list \<Rightarrow> File list" where
  "batch k r queue = take k (drop (r * k) queue)"

subsection \<open>Reads\<close>

text \<open>
  What a sequence of read results amounts to for the loop of \<^verbatim>\<open>sendFile\<close> with a
  buffer of \<open>b\<close> bytes: the payloads read before the loop is left, and whether it is
  left on an error. A sequence is clean when every read delivers data, without error and
  within the buffer.
\<close>

fun read_data :: "nat \<Rightarrow> read_result list \<Rightarrow> byte list list" where
  "read_data b [] = []"
| "read_data b ((d, e) # rs) =
     (if take b d = [] \<and> e = Some EOF then []
      else if e \<noteq> None \<and> e \<noteq> Some EOF then []
      else take b d # read_data b rs)"

fun read_fails :: "nat \<Rightarrow> read_result list \<Rightarrow> bool" where
  "read_fails b [] = False"
| "read_fails b ((d, e) # rs) =
     (if take b d = [] \<and> e = Some EOF then False
      else if e \<noteq> None \<and> e \<noteq> Some EOF then True
      else read_fails b rs)"

definition clean :: "nat \<Rightarrow> read_result list \<Rightarrow> bool" where
  "clean b rs = list_all (\<lambda>r. snd r = None \<and> fst r \<noteq> [] \<and> length (fst r) \<le> b) rs"

subsection \<open>The entries of a directory tree\<close>

text \<open>
  The entries below a directory that are reached through readable directories, each with
  the path of its directory, in listing order: an entry comes first, then the entries below
  it. \<open>below p vs\<close> does the same for the entries \<open>vs\<close> of a directory at \<open>p\<close>. Among
  them are the entries that are not directories, the regular files, and the directories
  that cannot be read.
\<close>

fun entries :: "path \<Rightarrow> node \<Rightarrow> (path \<times> node) list" where
  "entries p (Dir n es) = concat (map (\<lambda>v. (p, v) # entries (p @ [NodeName v]) v) es)"
| "entries p v = []"

definition below :: "path \<Rightarrow> node list \<Rightarrow> (path \<times> node) list" where
  "below p vs = concat (map (\<lambda>v. (p, v) # entries (p @ [NodeName v]) v) vs)"

definition non_directories :: "(path \<times> node) list \<Rightarrow> (path \<times> node) list" where
  "non_directories xs = filter (\<lambda>x. \<not> IsDir (snd x)) xs"

definition regular_files :: "(path \<times> node) list \<Rightarrow> (path \<times> node) list" where
  "regular_files xs = filter (\<lambda>x. IsRegular (snd x)) xs"

definition read_error :: "node \<Rightarrow> error option" where
  "read_error v = (case ReadDir v of Inl err \<Rightarrow> Some err | Inr fs \<Rightarrow> None)"

definition unreadable_directories :: "(path \<times> node) list \<Rightarrow> (path \<times> node) list" where
  "unreadable_directories xs = filter (\<lambda>x. IsDir (snd x) \<and> read_error (snd x) \<noteq> None) xs"

text \<open>
  The descriptor of an entry with the identifier \<open>i\<close>, the descriptors of a list of
  entries with the identifiers \<open>u\<close>, \<open>u + 1\<close> and so on, and the line printed for a
  directory that cannot be read.
\<close>

definition descriptor :: "Config \<Rightarrow> uuid \<Rightarrow> path \<times> node \<Rightarrow> File" where
  "descriptor c i x =
     \<lparr> File.ID = i, File.ConnectionID = Config.ConnectionID c, FileSize = Size (snd x),
       Name = NodeName (snd x), RelativePath = fst x \<rparr>"

fun descriptors :: "Config \<Rightarrow> uuid \<Rightarrow> (path \<times> node) list \<Rightarrow> File list" where
  "descriptors c u [] = []"
| "descriptors c u (x # xs) = descriptor c u x # descriptors c (Suc u) xs"

definition report :: "Config \<Rightarrow> path \<times> node \<Rightarrow> event" where
  "report c x =
     Stderr (ErrorReading (WorkingDirectory c @ fst x @ [NodeName (snd x)])
                          (case read_error (snd x) of Some err \<Rightarrow> err | None \<Rightarrow> ErrPermission))"

text \<open>
  The state \<^verbatim>\<open>collectFiles\<close> leaves when \<^verbatim>\<open>RunE\<close> calls it, and the trees in which no
  two entries of a directory have the same name, as in every file system.
\<close>

definition enumerated :: "Config \<Rightarrow> node \<Rightarrow> uuid \<Rightarrow> collect_state" where
  "enumerated c root u =
     collectFiles c (WorkingDirectory c) root \<lparr> files = [], next_uuid = u, printed = [] \<rparr>"

fun wf_names :: "node \<Rightarrow> bool" where
  "wf_names (Dir n es) = (distinct (map NodeName es) \<and> (\<forall>v \<in> set es. wf_names v))"
| "wf_names v = True"

subsection \<open>A sample session\<close>

text \<open>
  A working directory \<^verbatim>\<open>data\<close> holding \<^verbatim>\<open>a.txt\<close> (3 bytes) and \<^verbatim>\<open>sub/b.txt\<close>
  (empty), sent with a read buffer of 2 bytes and 2 threads, and the descriptors
  \<^verbatim>\<open>collectFiles\<close> makes for the two files. \<open>ex_locked\<close> is a directory whose file
  cannot be opened.
\<close>

definition ex_conf :: Config where
  "ex_conf = \<lparr> Hostname = ''receiver'', Port = 9000, WorkingDirectory = [''data''],
               Threads = 2, Config.ConnectionID = 7, ReadBufferSize = 2 \<rparr>"

definition ex_progress :: progress where
  "ex_progress file sentChunks width c = ([], 0)"

definition ex_root :: node where
  "ex_root = Dir ''data'' [Regular ''a.txt'' [1, 2, 3] NoFault,
                           Dir ''sub'' [Regular ''b.txt'' [] NoFault]]"

definition ex_a :: File where
  "ex_a = \<lparr> File.ID = 0, File.ConnectionID = 7, FileSize = 3, Name = ''a.txt'', RelativePath = [] \<rparr>"

definition ex_b :: File where
  "ex_b = \<lparr> File.ID = 1, File.ConnectionID = 7, FileSize = 0, Name = ''b.txt'',
            RelativePath = [''sub''] \<rparr>"

definition ex_locked :: node where
  "ex_locked = Dir ''data'' [Regular ''a.txt'' [1, 2, 3] OpenFails]"

text \<open>
  A directory holding a symbolic link and nothing else: the link is listed with 4 bytes
  and leads to a file of 2 bytes. \<open>ex_l\<close> is the descriptor \<^verbatim>\<open>collectFiles\<close> makes for
  it. Then a directory holding a file, a directory that cannot be read, and a
  subdirectory.
\<close>

definition ex_link :: node where
  "ex_link = Dir ''data'' [Special ''link'' 4 (Some [([1, 2], None)])]"

definition ex_l :: File where
  "ex_l = \<lparr> File.ID = 0, File.ConnectionID = 7, FileSize = 4, Name = ''link'', RelativePath = [] \<rparr>"

definition ex_mixed :: node where
  "ex_mixed = Dir ''data'' [Regular ''a.txt'' [1, 2, 3] NoFault,
                            UnreadableDir ''private'',
                            Dir ''sub'' [Regular ''b.txt'' [] NoFault]]"

text \<open>
  A queue of three files, a small one, a big one and a small one.
\<close>

definition ex_three :: node where
  "ex_three = Dir ''data'' [Regular ''a'' [1] NoFault,
                            Regular ''b'' [1, 2, 3, 4, 5, 6, 7] NoFault,
                            Regular ''c'' [2] NoFault]"

definition ex_A :: File where
  "ex_A = \<lparr> File.ID = 0, File.ConnectionID = 7, FileSize = 1, Name = ''a'', RelativePath = [] \<rparr>"

definition ex_B :: File where
  "ex_B = \<lparr> File.ID = 1, File.ConnectionID = 7, FileSize = 7, Name = ''b'', RelativePath = [] \<rparr>"

definition ex_C :: File where
  "ex_C = \<lparr> File.ID = 2, File.ConnectionID = 7, FileSize = 1, Name = ''c'', RelativePath = [] \<rparr>"

text \<open>
  The sample directory again, where the reads of \<^verbatim>\<open>a.txt\<close> fail after the first one.
\<close>

definition ex_faulty :: node where
  "ex_faulty = Dir ''data'' [Regular ''a.txt'' [1, 2, 3] (ReadFails 1),
                             Dir ''sub'' [Regular ''b.txt'' [] NoFault]]"

text \<open>
  A directory holding a named pipe whose first read returns 1 byte and whose second read
  returns 2 bytes, with the descriptor of the pipe.
\<close>

definition ex_pipe :: node where
  "ex_pipe = Dir ''data'' [Special ''fifo'' 0 (Some [([1], None), ([2, 3], None)])]"

definition ex_fifo :: File where
  "ex_fifo = \<lparr> File.ID = 0, File.ConnectionID = 7, FileSize = 0, Name = ''fifo'', RelativePath = [] \<rparr>"


text \<open>
  A codec for the samples: a tag, then a length or an identifier, then the payload.
\<close>

fun ex_encode :: "msg \<Rightarrow> byte list" where
  "ex_encode (MsgConfig cfg) = [1]"
| "ex_encode (MsgFile f) = [2, of_nat (File.ID f)]"
| "ex_encode (MsgFileChunk ch) = 3 # of_nat (length (Data ch)) # Data ch"
| "ex_encode MsgClose = [4]"
| "ex_encode (MsgConnectionClose cid) = [5]"

definition ex_chunk :: FileChunk where
  "ex_chunk = \<lparr> FileChunk.ID = 0, FileChunk.ConnectionID = 7, Data = [1, 2], Seq = 0 \<rparr>"

section \<open>Properties of sendFile\<close>

lemma chunks_append [simp]: "chunks (xs @ ys) = chunks xs @ chunks ys"
  by (induction xs rule: chunks.induct) auto

lemma read_loop_NilFp [simp]:
  "read_loop gp c f NilFp buf k lp = [Stderr (ErrorReadingFile f)]"
  by (simp add: read_loop.simps)

lemma read_loop_Fp_Nil [simp]: "read_loop gp c f (Fp []) buf k lp = []"
  by (simp add: read_loop.simps)

lemma read_loop_Fp_Cons:
  assumes "d' = take (length buf) d"
  shows "read_loop gp c f (Fp ((d, e) # rs)) buf k lp =
     (if d' = [] \<and> e = Some EOF then []
      else if e \<noteq> None \<and> e \<noteq> Some EOF then [Stderr (ErrorReadingFile f)]
      else (if lp < snd (gp f k 25 c) then [Stdout (Bar (fst (gp f k 25 c)))] else [])
           @ Send (MsgFileChunk \<lparr> FileChunk.ID = File.ID f,
                                  FileChunk.ConnectionID = Config.ConnectionID c,
                                  Data = d', Seq = k \<rparr>)
           # read_loop gp c f (Fp rs) (d' @ drop (length d') buf) (k + 1)
               (if lp < snd (gp f k 25 c) then snd (gp f k 25 c) else lp))"
proof -
  have R: "Read (Fp ((d, e) # rs)) buf = (length d', e, d' @ drop (length d') buf, Fp rs)"
    by (simp add: Let_def assms)
  have T: "take (length d') (d' @ drop (length d') buf) = d'"
    by simp
  show ?thesis
    apply (subst read_loop.simps)
    apply (simp only: R T prod.case Let_def length_0_conv split: prod.splits)
    apply clarsimp
    done
qed

lemma upt_Cons_shift: "k # [Suc k ..< Suc (k + n)] = [k ..< Suc (k + n)]"
  by (simp add: upt_conv_Cons del: upt_Suc)

lemma chunks_read_loop_Seq:
  "map Seq (chunks (read_loop gp c f fp buf k lp)) =
     [k ..< k + length (chunks (read_loop gp c f fp buf k lp))]"
proof (cases fp)
  case NilFp
  then show ?thesis by simp
next
  case (Fp rs)
  have "map Seq (chunks (read_loop gp c f (Fp rs) buf k lp)) =
     [k ..< k + length (chunks (read_loop gp c f (Fp rs) buf k lp))]"
  proof (induction rs arbitrary: buf k lp)
    case Nil
    then show ?case by simp
  next
    case (Cons r rs)
    obtain d e where r: "r = (d, e)" by (cases r)
    show ?case
      unfolding r
      by (simp add: read_loop_Fp_Cons [OF refl] Cons.IH upt_Cons_shift del: upt_Suc)
  qed
  with Fp show ?thesis by simp
qed

lemma chunks_read_loop_bound:
  "ch \<in> set (chunks (read_loop gp c f fp buf k lp)) \<Longrightarrow> length (Data ch) \<le> length buf"
proof (cases fp)
  case NilFp
  assume "ch \<in> set (chunks (read_loop gp c f fp buf k lp))"
  with NilFp show ?thesis by simp
next
  case (Fp rs)
  assume a: "ch \<in> set (chunks (read_loop gp c f fp buf k lp))"
  have "ch \<in> set (chunks (read_loop gp c f (Fp rs) buf k lp)) \<Longrightarrow> length (Data ch) \<le> length buf"
  proof (induction rs arbitrary: buf k lp)
    case Nil
    then show ?case by simp
  next
    case (Cons r rs)
    obtain d e where r: "r = (d, e)" by (cases r)
    from Cons.prems show ?case
      unfolding r
      by (auto simp add: read_loop_Fp_Cons [OF refl] split: if_splits dest!: Cons.IH)
  qed
  with a Fp show ?thesis by simp
qed

lemma chunks_read_loop_Data:
  "map Data (chunks (read_loop gp c f (Fp rs) buf k lp)) = read_data (length buf) rs"
proof (induction rs arbitrary: buf k lp)
  case Nil
  then show ?case by simp
next
  case (Cons r rs)
  obtain d e where r: "r = (d, e)" by (cases r)
  show ?case
    unfolding r by (simp add: read_loop_Fp_Cons [OF refl] Cons.IH)
qed


lemma read_loop_no_error:
  "\<not> read_fails (length buf) rs \<Longrightarrow>
     Stderr (ErrorReadingFile g) \<notin> set (read_loop gp c f (Fp rs) buf k lp)"
proof (induction rs arbitrary: buf k lp)
  case Nil
  then show ?case by simp
next
  case (Cons r rs)
  obtain d e where r: "r = (d, e)" by (cases r)
  from Cons.prems show ?case
    unfolding r
    by (auto simp add: read_loop_Fp_Cons [OF refl] Cons.IH split: if_splits)
qed

lemma os_reads_Nil [simp]: "os_reads b [] = []"
  by (simp add: os_reads.simps)

lemma os_reads_step: "0 < b \<Longrightarrow> xs \<noteq> [] \<Longrightarrow> os_reads b xs = (take b xs, None) # os_reads b (drop b xs)"
  by (subst os_reads.simps) simp

lemma concat_os_reads: "0 < b \<Longrightarrow> concat (map fst (os_reads b xs)) = xs"
proof (induction b xs rule: os_reads.induct)
  case (1 b xs)
  then show ?case
    by (cases "xs = []") (simp_all add: os_reads_step)
qed

lemma read_data_os_reads:
  "0 < b \<Longrightarrow> read_data b (os_reads b xs @ rs) = map fst (os_reads b xs) @ read_data b rs"
proof (induction b xs rule: os_reads.induct)
  case (1 b xs)
  then show ?case
    by (cases "xs = []") (simp_all add: os_reads_step)
qed

lemma read_fails_os_reads:
  "0 < b \<Longrightarrow> read_fails b (os_reads b xs @ rs) = read_fails b rs"
proof (induction b xs rule: os_reads.induct)
  case (1 b xs)
  then show ?case
    by (cases "xs = []") (simp_all add: os_reads_step)
qed

lemma clean_Nil [simp]: "clean b []"
  by (simp add: clean_def)

lemma clean_Cons [simp]:
  "clean b (r # rs) \<longleftrightarrow> snd r = None \<and> fst r \<noteq> [] \<and> length (fst r) \<le> b \<and> clean b rs"
  by (simp add: clean_def)

lemma clean_take: "clean b rs \<Longrightarrow> clean b (take k rs)"
  by (auto simp: clean_def list_all_iff dest: in_set_takeD)

lemma read_data_clean: "clean b rs \<Longrightarrow> read_data b (rs @ rs') = map fst rs @ read_data b rs'"
  by (induction rs) (auto simp: take_all)

lemma read_fails_clean: "clean b rs \<Longrightarrow> read_fails b (rs @ rs') = read_fails b rs'"
  by (induction rs) (auto simp: take_all)

lemma clean_os_reads: "0 < b \<Longrightarrow> clean b (os_reads b xs)"
proof (induction b xs rule: os_reads.induct)
  case (1 b xs)
  then show ?case
    by (cases "xs = []") (simp_all add: os_reads_step)
qed

lemma os_reads_eq_Nil: "0 < b \<Longrightarrow> os_reads b xs = [] \<longleftrightarrow> xs = []"
  by (cases "xs = []") (simp_all add: os_reads_step)

lemma os_reads_full: "0 < b \<Longrightarrow> d \<in> set (butlast (map fst (os_reads b xs))) \<Longrightarrow> length d = b"
proof (induction b xs rule: os_reads.induct)
  case (1 b xs)
  show ?case
  proof (cases "xs = []")
    case True
    with 1 show ?thesis by simp
  next
    case False
    show ?thesis
    proof (cases "drop b xs = []")
      case True
      with False 1 show ?thesis by (simp add: os_reads_step)
    next
      case ne: False
      then have "b < length xs" by simp
      with False ne 1 show ?thesis
        by (auto simp add: os_reads_step [of b xs] os_reads_eq_Nil split: if_splits)
    qed
  qed
qed

lemma set_butlast_take: "set (butlast (take k xs)) \<subseteq> set (butlast xs)"
proof (cases "k < length xs")
  case True
  then have "butlast (take k xs) = take (k - 1) (butlast xs)"
    by (simp add: butlast_take take_butlast)
  then show ?thesis
    by (simp add: set_take_subset)
next
  case False
  then show ?thesis by simp
qed

lemma os_Open_FullFilePath:
  "os_Open b (WorkingDirectory c) root (FullFilePath file c) =
     (case lookup root (RelativePath file @ [Name file]) of
        None \<Rightarrow> (NilFp, Some ErrNotExist)
      | Some v \<Rightarrow> open_node b v)"
  by (simp add: os_Open_def FullFilePath_def)

lemma chunks_sendFile:
  "chunks (sendFile gp c root file) =
     chunks (read_loop gp c file
       (fst (os_Open (ReadBufferSize c) (WorkingDirectory c) root (FullFilePath file c)))
       (replicate (ReadBufferSize c) 0) 0 0)"
  by (simp add: sendFile_def split: prod.splits)

lemma chunks_sendFile_Regular:
  assumes "lookup root (RelativePath file @ [Name file]) = Some (Regular n content flt)"
    and "0 < ReadBufferSize c"
  shows "map Data (chunks (sendFile gp c root file)) =
     (case flt of
        NoFault \<Rightarrow> map fst (os_reads (ReadBufferSize c) content)
      | OpenFails \<Rightarrow> []
      | ReadFails k \<Rightarrow> map fst (take k (os_reads (ReadBufferSize c) content)))"
proof (cases flt)
  case NoFault
  with assms show ?thesis
    using read_data_clean [OF clean_os_reads, of "ReadBufferSize c" content "[]"]
    by (simp add: chunks_sendFile os_Open_FullFilePath chunks_read_loop_Data)
next
  case OpenFails
  with assms show ?thesis
    by (simp add: chunks_sendFile os_Open_FullFilePath)
next
  case (ReadFails k)
  with assms show ?thesis
    using read_data_clean [OF clean_take [OF clean_os_reads], of "ReadBufferSize c" k content "[([], Some ErrIO)]"]
    by (simp add: chunks_sendFile os_Open_FullFilePath chunks_read_loop_Data)
qed

section \<open>Properties of collectFiles\<close>

lemma descriptors_append:
  "descriptors c u (xs @ ys) = descriptors c u xs @ descriptors c (u + length xs) ys"
  by (induction xs arbitrary: u) simp_all

lemma below_Nil [simp]: "below p [] = []"
  by (simp add: below_def)

lemma below_Cons: "below p (v # vs) = (p, v) # entries (p @ [NodeName v]) v @ below p vs"
  by (simp add: below_def)

lemma entries_Dir: "entries p (Dir n es) = below p es"
  by (simp add: below_def)

lemma entries_not_readable: "ReadDir d = Inl err \<Longrightarrow> entries p d = []"
  by (cases d) simp_all

lemma entries_readable: "ReadDir d = Inr fs \<Longrightarrow> entries p d = below p fs"
  by (cases d) (simp_all add: below_def)

lemma Rel_below [simp]: "Rel wd (wd @ p) = Inr p"
  by (simp add: Rel_def)

lemma non_directories_simps [simp]:
  "non_directories [] = []"
  "non_directories (x # xs) = (if IsDir (snd x) then non_directories xs else x # non_directories xs)"
  "non_directories (xs @ ys) = non_directories xs @ non_directories ys"
  by (simp_all add: non_directories_def)

lemma unreadable_directories_simps [simp]:
  "unreadable_directories [] = []"
  "unreadable_directories (x # xs) =
     (if IsDir (snd x) \<and> read_error (snd x) \<noteq> None then x # unreadable_directories xs
      else unreadable_directories xs)"
  "unreadable_directories (xs @ ys) = unreadable_directories xs @ unreadable_directories ys"
  by (simp_all add: unreadable_directories_def)

lemma collect_walk:
  "dir = WorkingDirectory c @ p \<Longrightarrow>
     files (collectFiles c dir d st)
       = files st @ descriptors c (next_uuid st) (non_directories (entries p d))
   \<and> next_uuid (collectFiles c dir d st)
       = next_uuid st + length (non_directories (entries p d))
   \<and> printed (collectFiles c dir d st)
       = printed st
         @ (case ReadDir d of Inl err \<Rightarrow> [Stderr (ErrorReading dir err)] | Inr fs \<Rightarrow> [])
         @ map (report c) (unreadable_directories (entries p d))"
  "dir = WorkingDirectory c @ p \<Longrightarrow>
     files (collect_range c dir vs st)
       = files st @ descriptors c (next_uuid st) (non_directories (below p vs))
   \<and> next_uuid (collect_range c dir vs st)
       = next_uuid st + length (non_directories (below p vs))
   \<and> printed (collect_range c dir vs st)
       = printed st @ map (report c) (unreadable_directories (below p vs))"
proof (induction c dir d st and c dir vs st arbitrary: p and p rule: collectFiles_collect_range.induct)
  case (1 c dir d st)
  show ?case
  proof (cases "ReadDir d")
    case (Inl err)
    with 1(1) [OF Inl "1.prems"] show ?thesis
      by (simp add: entries_not_readable)
  next
    case (Inr fs)
    with 1(2) [OF Inr "1.prems"] show ?thesis
      by (simp add: entries_readable)
  qed
next
  case (2 c dir st)
  then show ?case by simp
next
  case (3 c dir v vs st)
  show ?case
  proof (cases "IsDir v")
    case True
    have d: "dir @ [NodeName v] = WorkingDirectory c @ (p @ [NodeName v])"
      using "3.prems" by simp
    note sub = 3(1) [OF True d]
    note rest = 3(2) [OF "3.prems"]
    have e: "(case ReadDir v of Inl err \<Rightarrow> [Stderr (ErrorReading (dir @ [NodeName v]) err)]
               | Inr fs \<Rightarrow> [])
             = (if read_error v \<noteq> None then [report c (p, v)] else [])"
      using "3.prems" by (simp add: read_error_def report_def split: sum.splits)
    from True sub rest show ?thesis
      by (simp add: below_Cons descriptors_append e)
  next
    case False
    let ?st = "st\<lparr>files := files st @ [descriptor c (next_uuid st) (p, v)],
                    next_uuid := Suc (next_uuid st)\<rparr>"
    have en: "entries (p @ [NodeName v]) v = []"
      using False by (cases v) simp_all
    from 3(2) [OF "3.prems"] False "3.prems" show ?thesis
      by (simp add: below_Cons en descriptor_def)
  qed
qed

section \<open>Properties of the round loop\<close>

lemma events_of_Nil [simp]: "events_of g [] = []"
  by (simp add: events_of_def)

lemma events_of_Cons [simp]:
  "events_of g (x # tr) = (if fst x = g then snd x # events_of g tr else events_of g tr)"
  by (simp add: events_of_def)

lemma events_of_append [simp]: "events_of g (tr @ tr') = events_of g tr @ events_of g tr'"
  by (simp add: events_of_def)

lemma round_trace_done:
  "pend = [] \<Longrightarrow> all_done act \<Longrightarrow> round_trace prog sch pend act = []"
  by (simp add: round_trace.simps)

lemma round_trace_go:
  "pend \<noteq> [] \<Longrightarrow> choice sch = 0 \<or> \<not> runnable act (choice sch - 1) \<Longrightarrow>
     round_trace prog sch pend act =
       (Main, Go (hd pend))
       # round_trace prog (tl sch) (tl pend) (act @ [(hd pend, prog (hd pend))])"
  by (subst round_trace.simps) simp

lemma round_trace_step:
  "\<not> (pend = [] \<and> all_done act) \<Longrightarrow>
   \<not> (pend \<noteq> [] \<and> (choice sch = 0 \<or> \<not> runnable act (choice sch - 1))) \<Longrightarrow>
   i = pick (choice sch) act \<Longrightarrow>
     round_trace prog sch pend act =
       (Sender (fst (act ! i)), hd (snd (act ! i)))
       # round_trace prog (tl sch) pend (act[i := (fst (act ! i), tl (snd (act ! i)))])"
  by (subst round_trace.simps) (simp add: Let_def)

lemma events_of_Main_round:
  "events_of Main (round_trace prog sch pend act) = map Go pend"
proof (induction prog sch pend act rule: round_trace.induct)
  case (1 prog sch pend act)
  show ?case
  proof (cases "pend = [] \<and> all_done act")
    case True
    then show ?thesis by (simp add: round_trace_done)
  next
    case nd: False
    show ?thesis
    proof (cases "pend \<noteq> [] \<and> (choice sch = 0 \<or> \<not> runnable act (choice sch - 1))")
      case True
      with nd 1(1) show ?thesis
        by (cases pend) (simp_all add: round_trace_go)
    next
      case False
      with nd 1(2) [OF nd False refl] show ?thesis
        by (simp add: round_trace_step [OF nd False refl])
    qed
  qed
qed

lemma distinct_keys_eq:
  "distinct (map fst act) \<Longrightarrow> (f, es) \<in> set act \<Longrightarrow> i < length act \<Longrightarrow> fst (act ! i) = f
     \<Longrightarrow> snd (act ! i) = es"
  by (metis eq_key_imp_eq_value nth_mem prod.collapse)

lemma events_of_Sender_started:
  "distinct (map fst act @ pend) \<Longrightarrow> (f, es) \<in> set act \<Longrightarrow>
     events_of (Sender f) (round_trace prog sch pend act) = es"
proof (induction prog sch pend act arbitrary: es rule: round_trace.induct)
  case (1 prog sch pend act)
  note d = "1.prems"(1) and m = "1.prems"(2)
  show ?case
  proof (cases "pend = [] \<and> all_done act")
    case True
    with m have "es = []" by (auto simp: all_done_def list_all_iff)
    with True show ?thesis by (simp add: round_trace_done)
  next
    case nd: False
    show ?thesis
    proof (cases "pend \<noteq> [] \<and> (choice sch = 0 \<or> \<not> runnable act (choice sch - 1))")
      case True
      then obtain h pend' where p: "pend = h # pend'" by (cases pend) auto
      from d p have d': "distinct (map fst (act @ [(hd pend, prog (hd pend))]) @ tl pend)"
        by auto
      from m have m': "(f, es) \<in> set (act @ [(hd pend, prog (hd pend))])" by simp
      from 1(1) [OF nd True d' m'] True show ?thesis
        by (simp add: round_trace_go)
    next
      case False
      let ?i = "pick (choice sch) act"
      let ?act = "act[?i := (fst (act ! ?i), tl (snd (act ! ?i)))]"
      from pick_runnable [OF nd False] have r: "?i < length act" "snd (act ! ?i) \<noteq> []"
        by (simp_all add: runnable_def)
      have keys: "map fst ?act = map fst act"
        using r(1) by (simp add: map_update list_update_same_conv)
      with d have d': "distinct (map fst ?act @ pend)" by simp
      from d have dk: "distinct (map fst act)" by simp
      show ?thesis
      proof (cases "fst (act ! ?i) = f")
        case True
        with distinct_keys_eq [OF dk m r(1)] have e: "snd (act ! ?i) = es" by simp
        have "(f, tl es) \<in> set ?act"
          using r(1) True e by (metis set_update_memI)
        from 1(2) [OF nd False refl d' this] True e r(2) show ?thesis
          by (simp add: round_trace_step [OF nd False refl])
      next
        case ne: False
        have "(f, es) \<in> set ?act"
        proof -
          from m obtain j where j: "j < length act" "act ! j = (f, es)"
            by (auto simp: in_set_conv_nth)
          with ne have "j \<noteq> ?i" by auto
          with j have "?act ! j = (f, es)" by simp
          with j(1) show ?thesis
            by (metis length_list_update nth_mem)
        qed
        from 1(2) [OF nd False refl d' this] ne show ?thesis
          by (simp add: round_trace_step [OF nd False refl])
      qed
    qed
  qed
qed

lemma events_of_Sender_pending:
  "distinct (map fst act @ pend) \<Longrightarrow> f \<in> set pend \<Longrightarrow>
     events_of (Sender f) (round_trace prog sch pend act) = prog f"
proof (induction prog sch pend act rule: round_trace.induct)
  case (1 prog sch pend act)
  note d = "1.prems"(1) and m = "1.prems"(2)
  from m have nd: "\<not> (pend = [] \<and> all_done act)" by auto
  show ?case
  proof (cases "pend \<noteq> [] \<and> (choice sch = 0 \<or> \<not> runnable act (choice sch - 1))")
    case go: True
    then obtain h pend' where p: "pend = h # pend'" by (cases pend) auto
    from d p have d': "distinct (map fst (act @ [(hd pend, prog (hd pend))]) @ tl pend)"
      by auto
    show ?thesis
    proof (cases "f = h")
      case True
      with p have "(f, prog f) \<in> set (act @ [(hd pend, prog (hd pend))])" by simp
      from events_of_Sender_started [OF d' this] go show ?thesis
        by (simp add: round_trace_go)
    next
      case False
      with m p have "f \<in> set (tl pend)" by simp
      from 1(1) [OF nd go d' this] go show ?thesis
        by (simp add: round_trace_go)
    qed
  next
    case False
    let ?i = "pick (choice sch) act"
    let ?act = "act[?i := (fst (act ! ?i), tl (snd (act ! ?i)))]"
    from pick_runnable [OF nd False] have r: "?i < length act" "snd (act ! ?i) \<noteq> []"
      by (simp_all add: runnable_def)
    have keys: "map fst ?act = map fst act"
      using r(1) by (simp add: map_update list_update_same_conv)
    with d have d': "distinct (map fst ?act @ pend)" by simp
    from r(1) have "fst (act ! ?i) \<in> set (map fst act)"
      by (metis length_map nth_map nth_mem)
    with d m have "fst (act ! ?i) \<noteq> f" by auto
    with 1(2) [OF nd False refl d' m] show ?thesis
      by (simp add: round_trace_step [OF nd False refl])
  qed
qed

lemma round_trace_members:
  "(g, e) \<in> set (round_trace prog sch pend act) \<Longrightarrow>
     (g = Main \<and> (\<exists>f \<in> set pend. e = Go f))
   \<or> (\<exists>f. g = Sender f \<and> ((f \<in> set pend \<and> e \<in> set (prog f))
                            \<or> (\<exists>es. (f, es) \<in> set act \<and> e \<in> set es)))"
proof (induction prog sch pend act rule: round_trace.induct)
  case (1 prog sch pend act)
  note m = "1.prems"
  show ?case
  proof (cases "pend = [] \<and> all_done act")
    case True
    with m show ?thesis by (simp add: round_trace_done)
  next
    case nd: False
    show ?thesis
    proof (cases "pend \<noteq> [] \<and> (choice sch = 0 \<or> \<not> runnable act (choice sch - 1))")
      case True
      then obtain h pend' where p: "pend = h # pend'" by (cases pend) auto
      from m True have "(g, e) = (Main, Go h)
          \<or> (g, e) \<in> set (round_trace prog (tl sch) (tl pend) (act @ [(hd pend, prog (hd pend))]))"
        by (simp add: round_trace_go p)
      then show ?thesis
      proof
        assume "(g, e) = (Main, Go h)"
        with p show ?thesis by simp
      next
        assume "(g, e) \<in> set (round_trace prog (tl sch) (tl pend) (act @ [(hd pend, prog (hd pend))]))"
        from 1(1) [OF nd True this] p show ?thesis
          by auto
      qed
    next
      case False
      let ?i = "pick (choice sch) act"
      let ?act = "act[?i := (fst (act ! ?i), tl (snd (act ! ?i)))]"
      from pick_runnable [OF nd False] have r: "?i < length act" "snd (act ! ?i) \<noteq> []"
        by (simp_all add: runnable_def)
      have here: "(fst (act ! ?i), snd (act ! ?i)) \<in> set act"
        using r(1) by simp
      from m have "(g, e) = (Sender (fst (act ! ?i)), hd (snd (act ! ?i)))
          \<or> (g, e) \<in> set (round_trace prog (tl sch) pend ?act)"
        by (simp add: round_trace_step [OF nd False refl])
      then show ?thesis
      proof
        assume "(g, e) = (Sender (fst (act ! ?i)), hd (snd (act ! ?i)))"
        with here r(2) show ?thesis
          by (metis Pair_inject hd_in_set)
      next
        assume "(g, e) \<in> set (round_trace prog (tl sch) pend ?act)"
        from 1(2) [OF nd False refl this] show ?thesis
        proof (elim disjE exE conjE)
          fix f es
          assume g: "g = Sender f" and a: "(f, es) \<in> set ?act" and e: "e \<in> set es"
          from a have "(f, es) \<in> set act \<or> (f, es) = (fst (act ! ?i), tl (snd (act ! ?i)))"
            using set_update_subset_insert [of act ?i] by blast
          then show ?thesis
          proof
            assume "(f, es) \<in> set act"
            with g e show ?thesis by blast
          next
            assume "(f, es) = (fst (act ! ?i), tl (snd (act ! ?i)))"
            with e r(2) have "f = fst (act ! ?i)" "e \<in> set (snd (act ! ?i))"
              by (auto dest: list.set_sel(2))
            with g here show ?thesis by blast
          qed
        qed auto
      qed
    qed
  qed
qed

lemma spawn_loop_eq:
  "i \<le> t \<Longrightarrow> spawn_loop i t q =
     (take (unat t - unat i) q, drop (unat t - unat i) q, length q < unat t - unat i)"
proof (induction i t q rule: spawn_loop.induct)
  case (1 i t q)
  show ?case
  proof (cases "i < t")
    case True
    then have s: "unat (i + 1) = Suc (unat i)" and l: "unat i < unat t" and le: "i + 1 \<le> t"
      by (simp_all add: word_Suc_less word_less_nat_alt inc_le)
    then have k: "unat t - unat i = Suc (unat t - unat (i + 1))" by simp
    show ?thesis
    proof (cases q)
      case Nil
      with True l show ?thesis by (subst spawn_loop.simps) simp
    next
      case (Cons f q')
      from 1(1) [OF True Cons le] True Cons show ?thesis
        by (subst spawn_loop.simps) (simp add: k)
    qed
  next
    case False
    with 1(2) have "i = t" by simp
    then show ?thesis by (subst spawn_loop.simps) simp
  qed
qed

lemma spawn_loop_0: "spawn_loop 0 t q = (take (unat t) q, drop (unat t) q, length q < unat t)"
  using spawn_loop_eq [of 0 t q] by simp

lemma round_loop_Suc:
  "round_loop (Suc n) prog t scheds q =
     (if length q < unat t then (round_trace prog (sched_of scheds) q [], True)
      else (round_trace prog (sched_of scheds) (take (unat t) q) []
              @ fst (round_loop n prog t (tl scheds) (drop (unat t) q)),
            snd (round_loop n prog t (tl scheds) (drop (unat t) q))))"
  by (simp add: spawn_loop_0 split: prod.splits)

lemma round_trace_empty [simp]: "round_trace prog sch [] [] = []"
  by (simp add: round_trace_done all_done_def)

lemma round_loop_zero_threads: "round_loop n prog 0 scheds q = ([], False)"
  by (induction n arbitrary: scheds q) (simp_all add: round_loop_Suc del: round_loop.simps(2))

lemma round_loop_returns:
  "0 < unat t \<Longrightarrow> length q div unat t < n \<Longrightarrow> snd (round_loop n prog t scheds q)"
proof (induction n arbitrary: scheds q)
  case 0
  then show ?case by simp
next
  case (Suc n)
  show ?case
  proof (cases "length q < unat t")
    case True
    then show ?thesis by (simp add: round_loop_Suc del: round_loop.simps(2))
  next
    case False
    then have "length (drop (unat t) q) div unat t = length q div unat t - 1"
      using Suc.prems(1) by (simp add: le_div_geq)
    moreover from False Suc.prems(1) have "0 < length q div unat t"
      by (simp add: div_greater_zero_iff)
    ultimately have "length (drop (unat t) q) div unat t < n"
      using Suc.prems(2) by linarith
    from Suc.IH [OF Suc.prems(1) this] False show ?thesis
      by (simp add: round_loop_Suc del: round_loop.simps(2))
  qed
qed

lemma round_loop_left_fuel:
  "snd (round_loop n prog t scheds q) \<Longrightarrow> 0 < unat t \<and> length q div unat t < n"
proof (induction n arbitrary: scheds q)
  case 0
  then show ?case by simp
next
  case (Suc n)
  show ?case
  proof (cases "length q < unat t")
    case True
    then show ?thesis by simp
  next
    case False
    with Suc.prems have "snd (round_loop n prog t (tl scheds) (drop (unat t) q))"
      by (simp add: round_loop_Suc del: round_loop.simps(2))
    from Suc.IH [OF this] have t: "0 < unat t" and "length (drop (unat t) q) div unat t < n"
      by simp_all
    with False have "length q div unat t < Suc n"
      by (simp add: le_div_geq)
    with t show ?thesis by simp
  qed
qed

lemma round_loop_Main:
  "snd (round_loop n prog t scheds q) \<Longrightarrow>
     events_of Main (fst (round_loop n prog t scheds q)) = map Go q"
proof (induction n arbitrary: scheds q)
  case 0
  then show ?case by simp
next
  case (Suc n)
  show ?case
  proof (cases "length q < unat t")
    case True
    then show ?thesis
      by (simp add: round_loop_Suc events_of_Main_round del: round_loop.simps(2))
  next
    case False
    with Suc.prems have "snd (round_loop n prog t (tl scheds) (drop (unat t) q))"
      by (simp add: round_loop_Suc del: round_loop.simps(2))
    from Suc.IH [OF this] False show ?thesis
      by (simp add: round_loop_Suc events_of_Main_round del: round_loop.simps(2) flip: map_append)
  qed
qed

lemma read_loop_sends:
  "Send m \<in> set (read_loop gp c f fp buf k lp) \<Longrightarrow>
     \<exists>ch. m = MsgFileChunk ch \<and> FileChunk.ID ch = File.ID f
        \<and> FileChunk.ConnectionID ch = Config.ConnectionID c"
proof (cases fp)
  case NilFp
  assume "Send m \<in> set (read_loop gp c f fp buf k lp)"
  with NilFp show ?thesis by simp
next
  case (Fp rs)
  assume a: "Send m \<in> set (read_loop gp c f fp buf k lp)"
  have "Send m \<in> set (read_loop gp c f (Fp rs) buf k lp) \<Longrightarrow>
     \<exists>ch. m = MsgFileChunk ch \<and> FileChunk.ID ch = File.ID f
        \<and> FileChunk.ConnectionID ch = Config.ConnectionID c"
  proof (induction rs arbitrary: buf k lp)
    case Nil
    then show ?case by simp
  next
    case (Cons r rs)
    obtain d e where r: "r = (d, e)" by (cases r)
    from Cons.prems show ?case
      unfolding r
      by (auto simp add: read_loop_Fp_Cons [OF refl] split: if_splits dest!: Cons.IH)
  qed
  with a Fp show ?thesis by simp
qed

lemma sendFile_unfold:
  "sendFile gp c root f =
     Stdout (Header f)
     # (if snd (os_Open (ReadBufferSize c) (WorkingDirectory c) root (FullFilePath f c)) \<noteq> None
        then [Stderr (ErrorOpeningFile f)] else [])
     @ Send (MsgFile f)
     # read_loop gp c f
         (fst (os_Open (ReadBufferSize c) (WorkingDirectory c) root (FullFilePath f c)))
         (replicate (ReadBufferSize c) 0) 0 0
     @ [Stdout FinalBar, WgDone f]"
  by (simp add: sendFile_def split: prod.splits)

lemma sendFile_sends:
  "Send m \<in> set (sendFile gp c root f) \<Longrightarrow>
     m = MsgFile f
     \<or> (\<exists>ch. m = MsgFileChunk ch \<and> FileChunk.ID ch = File.ID f
           \<and> FileChunk.ConnectionID ch = Config.ConnectionID c)"
  by (auto simp add: sendFile_unfold split: if_splits dest!: read_loop_sends)

lemma sendFile_WgDone: "WgDone f \<in> set (sendFile gp c root f)"
  by (simp add: sendFile_unfold)

lemma sendFile_no_closed: "ConnectionClosed \<notin> set (sendFile gp c root f)"
proof -
  have "ConnectionClosed \<notin> set (read_loop gp c f fp buf k lp)" for fp buf k lp
  proof (cases fp)
    case NilFp
    then show ?thesis by simp
  next
    case (Fp rs)
    have "ConnectionClosed \<notin> set (read_loop gp c f (Fp rs) buf k lp)"
    proof (induction rs arbitrary: buf k lp)
      case Nil
      then show ?case by simp
    next
      case (Cons r rs)
      obtain d e where r: "r = (d, e)" by (cases r)
      show ?case
        unfolding r by (simp add: read_loop_Fp_Cons [OF refl] Cons.IH)
    qed
    with Fp show ?thesis by simp
  qed
  then show ?thesis
    by (simp add: sendFile_unfold)
qed

lemma round_loop_members:
  "(g, e) \<in> set (fst (round_loop n prog t scheds q)) \<Longrightarrow>
     (g = Main \<and> (\<exists>f \<in> set q. e = Go f)) \<or> (\<exists>f \<in> set q. g = Sender f \<and> e \<in> set (prog f))"
proof (induction n arbitrary: scheds q)
  case 0
  then show ?case by simp
next
  case (Suc n)
  show ?case
  proof (cases "length q < unat t")
    case True
    with Suc.prems have "(g, e) \<in> set (round_trace prog (sched_of scheds) q [])"
      by (simp add: round_loop_Suc del: round_loop.simps(2))
    from round_trace_members [OF this] show ?thesis by auto
  next
    case False
    with Suc.prems have "(g, e) \<in> set (round_trace prog (sched_of scheds) (take (unat t) q) [])
        \<or> (g, e) \<in> set (fst (round_loop n prog t (tl scheds) (drop (unat t) q)))"
      by (simp add: round_loop_Suc del: round_loop.simps(2))
    then show ?thesis
    proof
      assume "(g, e) \<in> set (round_trace prog (sched_of scheds) (take (unat t) q) [])"
      from round_trace_members [OF this] show ?thesis
        by (auto dest: in_set_takeD)
    next
      assume "(g, e) \<in> set (fst (round_loop n prog t (tl scheds) (drop (unat t) q)))"
      from Suc.IH [OF this] show ?thesis
        by (auto dest: in_set_dropD)
    qed
  qed
qed

lemma events_of_empty: "\<forall>e. (g, e) \<notin> set tr \<Longrightarrow> events_of g tr = []"
  by (auto simp add: events_of_def filter_empty_conv)

lemma events_of_member: "e \<in> set (events_of g tr) \<Longrightarrow> (g, e) \<in> set tr"
  by (auto simp add: events_of_def)

lemma round_loop_Sender_none:
  "f \<notin> set q \<Longrightarrow> events_of (Sender f) (fst (round_loop n prog t scheds q)) = []"
  by (rule events_of_empty) (auto dest: round_loop_members)

lemma round_trace_Sender_none:
  "f \<notin> set q \<Longrightarrow> events_of (Sender f) (round_trace prog sch q []) = []"
  by (rule events_of_empty) (auto dest: round_trace_members)

lemma round_loop_Sender:
  "distinct q \<Longrightarrow> snd (round_loop n prog t scheds q) \<Longrightarrow> f \<in> set q \<Longrightarrow>
     events_of (Sender f) (fst (round_loop n prog t scheds q)) = prog f"
proof (induction n arbitrary: scheds q)
  case 0
  then show ?case by simp
next
  case (Suc n)
  show ?case
  proof (cases "length q < unat t")
    case True
    with Suc.prems events_of_Sender_pending [of "[]" q f prog "sched_of scheds"]
    show ?thesis
      by (simp add: round_loop_Suc del: round_loop.simps(2))
  next
    case False
    let ?k = "unat t"
    from False Suc.prems(2) have left: "snd (round_loop n prog t (tl scheds) (drop ?k q))"
      by (simp add: round_loop_Suc del: round_loop.simps(2))
    from Suc.prems(1) have d: "distinct (take ?k q)" "distinct (drop ?k q)"
      and disj: "set (take ?k q) \<inter> set (drop ?k q) = {}"
      by (simp_all add: set_take_disj_set_drop_if_distinct)
    from Suc.prems(3) have "f \<in> set (take ?k q) \<or> f \<in> set (drop ?k q)"
      by (metis Un_iff append_take_drop_id set_append)
    then show ?thesis
    proof
      assume a: "f \<in> set (take ?k q)"
      with disj have "f \<notin> set (drop ?k q)" by auto
      with a d(1) False events_of_Sender_pending [of "[]" "take ?k q" f prog "sched_of scheds"]
      show ?thesis
        by (simp add: round_loop_Suc round_loop_Sender_none del: round_loop.simps(2))
    next
      assume a: "f \<in> set (drop ?k q)"
      with disj have "f \<notin> set (take ?k q)" by auto
      with Suc.IH [OF d(2) left a] False show ?thesis
        by (simp add: round_loop_Suc round_trace_Sender_none del: round_loop.simps(2))
    qed
  qed
qed

lemma descriptors_ID: "map File.ID (descriptors c u xs) = [u ..< u + length xs]"
proof (induction xs arbitrary: u)
  case Nil
  then show ?case by simp
next
  case (Cons x xs)
  then show ?case
    by (simp add: descriptor_def upt_conv_Cons del: upt_Suc)
qed

lemma distinct_descriptors: "distinct (descriptors c u xs)"
proof -
  have "distinct (map File.ID (descriptors c u xs))"
    by (simp add: descriptors_ID)
  then show ?thesis
    by (simp add: distinct_map)
qed

lemma batch_0 [simp]: "batch k 0 q = take k q"
  by (simp add: batch_def)

lemma batch_Suc: "batch k (Suc r) q = batch k r (drop k q)"
  by (simp add: batch_def add.commute)

lemma sched_of_tl: "sched_of (drop r (tl scheds)) = sched_of (drop (Suc r) scheds)"
  by (simp add: drop_Suc)

lemma upt_Suc_shift: "[0 ..< Suc (Suc m)] = 0 # map Suc [0 ..< Suc m]"
  by (simp add: map_Suc_upt upt_conv_Cons del: upt_Suc)

lemma round_loop_rounds:
  "snd (round_loop n prog t scheds q) \<Longrightarrow>
     fst (round_loop n prog t scheds q) =
       concat (map (\<lambda>r. round_trace prog (sched_of (drop r scheds)) (batch (unat t) r q) [])
                 [0 ..< Suc (length q div unat t)])"
proof (induction n arbitrary: scheds q)
  case 0
  then show ?case by simp
next
  case (Suc n)
  from round_loop_left_fuel [OF Suc.prems] have k: "0 < unat t" by simp
  show ?case
  proof (cases "length q < unat t")
    case True
    then show ?thesis
      by (simp add: round_loop_Suc del: round_loop.simps(2))
  next
    case False
    with Suc.prems have left: "snd (round_loop n prog t (tl scheds) (drop (unat t) q))"
      by (simp add: round_loop_Suc del: round_loop.simps(2))
    from False k have d: "length q div unat t = Suc (length (drop (unat t) q) div unat t)"
      by (simp add: le_div_geq)
    show ?thesis
      unfolding d upt_Suc_shift
      using False Suc.IH [OF left]
      by (simp add: round_loop_Suc sched_of_tl batch_Suc o_def del: round_loop.simps(2) upt_Suc)
  qed
qed

lemma Go_not_in_round:
  "f \<notin> set q \<Longrightarrow> (Main, Go f) \<notin> set (round_trace prog sch q [])"
  by (auto dest: round_trace_members)

lemma round_loop_barrier:
  "distinct q \<Longrightarrow> snd (round_loop n (sendFile gp c root) t scheds q) \<Longrightarrow>
   i < length q \<Longrightarrow> j < length q \<Longrightarrow> i div unat t < j div unat t \<Longrightarrow>
     \<exists>pre post. fst (round_loop n (sendFile gp c root) t scheds q) = pre @ post
       \<and> (Sender (q ! i), WgDone (q ! i)) \<in> set pre
       \<and> (Main, Go (q ! j)) \<notin> set pre
       \<and> (Main, Go (q ! j)) \<in> set post"
proof (induction n arbitrary: scheds q i j)
  case 0
  then show ?case by simp
next
  case (Suc n)
  let ?k = "unat t"
  let ?prog = "sendFile gp c root"
  let ?R = "round_trace ?prog (sched_of scheds) (take ?k q) []"
  let ?rest = "round_loop n ?prog t (tl scheds) (drop ?k q)"
  from round_loop_left_fuel [OF Suc.prems(2)] have k: "0 < ?k" by simp
  from Suc.prems(5) have "0 < j div ?k" by simp
  with k have jk: "?k \<le> j"
    by (simp add: div_greater_zero_iff)
  with Suc.prems(4) have ge: "\<not> length q < ?k" by simp
  with Suc.prems(2) have left: "snd ?rest"
    by (simp add: round_loop_Suc del: round_loop.simps(2))
  from ge have tr: "fst (round_loop (Suc n) ?prog t scheds q) = ?R @ fst ?rest"
    by (simp add: round_loop_Suc del: round_loop.simps(2))
  from Suc.prems(1) have d: "distinct (take ?k q)" "distinct (drop ?k q)"
    and disj: "set (take ?k q) \<inter> set (drop ?k q) = {}"
    by (simp_all add: set_take_disj_set_drop_if_distinct)
  from jk Suc.prems(4) have jd: "q ! j = drop ?k q ! (j - ?k)" "j - ?k < length (drop ?k q)"
    by simp_all
  then have jin: "q ! j \<in> set (drop ?k q)"
    by (metis nth_mem)
  with disj have "q ! j \<notin> set (take ?k q)" by auto
  then have noR: "(Main, Go (q ! j)) \<notin> set ?R"
    by (rule Go_not_in_round)
  show ?case
  proof (cases "i < ?k")
    case True
    with Suc.prems(3) have "q ! i \<in> set (take ?k q)"
      by (metis length_take min_less_iff_conj nth_mem nth_take)
    then have "events_of (Sender (q ! i)) ?R = ?prog (q ! i)"
      using events_of_Sender_pending [of "[]" "take ?k q" "q ! i" ?prog "sched_of scheds"] d(1)
      by simp
    then have "WgDone (q ! i) \<in> set (events_of (Sender (q ! i)) ?R)"
      by (simp add: sendFile_WgDone)
    then have 1: "(Sender (q ! i), WgDone (q ! i)) \<in> set ?R"
      by (rule events_of_member)
    from jin have "Go (q ! j) \<in> set (events_of Main (fst ?rest))"
      by (simp add: round_loop_Main [OF left])
    then have "(Main, Go (q ! j)) \<in> set (fst ?rest)"
      by (rule events_of_member)
    with 1 noR tr show ?thesis by blast
  next
    case False
    then have ik: "?k \<le> i" by simp
    with Suc.prems(3) have id: "q ! i = drop ?k q ! (i - ?k)" "i - ?k < length (drop ?k q)"
      by simp_all
    from ik jk k Suc.prems(5) have "(i - ?k) div ?k < (j - ?k) div ?k"
      by (simp add: le_div_geq)
    from Suc.IH [OF d(2) left id(2) jd(2) this] obtain pre post where
      "fst ?rest = pre @ post"
      "(Sender (q ! i), WgDone (q ! i)) \<in> set pre"
      "(Main, Go (q ! j)) \<notin> set pre"
      "(Main, Go (q ! j)) \<in> set post"
      unfolding id(1) [symmetric] jd(1) [symmetric] by blast
    with noR tr have "fst (round_loop (Suc n) ?prog t scheds q) = (?R @ pre) @ post
        \<and> (Sender (q ! i), WgDone (q ! i)) \<in> set (?R @ pre)
        \<and> (Main, Go (q ! j)) \<notin> set (?R @ pre)
        \<and> (Main, Go (q ! j)) \<in> set post"
      by simp
    then show ?thesis by blast
  qed
qed

section \<open>The sample session, step by step\<close>

lemma os_reads_ex: "os_reads 2 [1, 2, 3] = [([1, 2], None), ([3], None)]"
  by (simp add: os_reads_step)

lemma frames_append [simp]: "frames (tr @ tr') = frames tr @ frames tr'"
  by (induction tr rule: frames.induct) simp_all

lemma round_trace_step_eval:
  "\<not> (pend = [] \<and> all_done act) \<Longrightarrow>
   \<not> (pend \<noteq> [] \<and> (choice sch = 0 \<or> \<not> runnable act (choice sch - 1))) \<Longrightarrow>
     round_trace prog sch pend act =
       (Sender (fst (act ! pick (choice sch) act)), hd (snd (act ! pick (choice sch) act)))
       # round_trace prog (tl sch) pend
           (act[pick (choice sch) act :=
                  (fst (act ! pick (choice sch) act), tl (snd (act ! pick (choice sch) act)))])"
  by (rule round_trace_step) simp_all

lemma sendFile_ex_a:
  "sendFile ex_progress ex_conf ex_root ex_a =
     [Stdout (Header ex_a), Send (MsgFile ex_a),
      Send (MsgFileChunk \<lparr> FileChunk.ID = 0, FileChunk.ConnectionID = 7, Data = [1, 2], Seq = 0 \<rparr>),
      Send (MsgFileChunk \<lparr> FileChunk.ID = 0, FileChunk.ConnectionID = 7, Data = [3], Seq = 1 \<rparr>),
      Stdout FinalBar, WgDone ex_a]"
proof -
  have l: "lookup ex_root (RelativePath ex_a @ [Name ex_a]) = Some (Regular ''a.txt'' [1, 2, 3] NoFault)"
    by (simp add: ex_root_def ex_a_def)
  have c: "ReadBufferSize ex_conf = 2" "Config.ConnectionID ex_conf = 7" "File.ID ex_a = 0"
    by (simp_all add: ex_conf_def ex_a_def)
  have r: "replicate 2 (0 :: byte) = [0, 0]"
    by (simp add: numeral_2_eq_2)
  show ?thesis
    unfolding sendFile_def os_Open_FullFilePath l
    by (simp add: c r os_reads_ex read_loop_Fp_Cons [OF refl] ex_progress_def)
qed

lemma sendFile_ex_b:
  "sendFile ex_progress ex_conf ex_root ex_b =
     [Stdout (Header ex_b), Send (MsgFile ex_b), Stdout FinalBar, WgDone ex_b]"
proof -
  have l: "lookup ex_root (RelativePath ex_b @ [Name ex_b]) = Some (Regular ''b.txt'' [] NoFault)"
    by (simp add: ex_root_def ex_b_def)
  show ?thesis
    unfolding sendFile_def os_Open_FullFilePath l
    by simp
qed

lemmas round_eval =
  round_trace_done round_trace_go round_trace_step_eval
  choice_def pick_def runnable_def all_done_def sched_of_def

lemma round_ex:
  "round_trace (sendFile ex_progress ex_conf ex_root) [] [ex_a, ex_b] [] =
     (Main, Go ex_a) # (Main, Go ex_b)
     # map (Pair (Sender ex_a)) (sendFile ex_progress ex_conf ex_root ex_a)
     @ map (Pair (Sender ex_b)) (sendFile ex_progress ex_conf ex_root ex_b)"
  by (simp add: round_eval sendFile_ex_a sendFile_ex_b)

lemma sendFile_ex_l:
  "sendFile ex_progress ex_conf ex_link ex_l =
     [Stdout (Header ex_l), Send (MsgFile ex_l),
      Send (MsgFileChunk \<lparr> FileChunk.ID = 0, FileChunk.ConnectionID = 7, Data = [1, 2], Seq = 0 \<rparr>),
      Stdout FinalBar, WgDone ex_l]"
proof -
  have l: "lookup ex_link (RelativePath ex_l @ [Name ex_l]) = Some (Special ''link'' 4 (Some [([1, 2], None)]))"
    by (simp add: ex_link_def ex_l_def)
  have c: "ReadBufferSize ex_conf = 2" "Config.ConnectionID ex_conf = 7" "File.ID ex_l = 0"
    by (simp_all add: ex_conf_def ex_l_def)
  have r: "replicate 2 (0 :: byte) = [0, 0]"
    by (simp add: numeral_2_eq_2)
  show ?thesis
    unfolding sendFile_def os_Open_FullFilePath l
    by (simp add: c r read_loop_Fp_Cons [OF refl] ex_progress_def)
qed

lemma sendFile_faulty_a:
  "sendFile ex_progress ex_conf ex_faulty ex_a =
     [Stdout (Header ex_a), Send (MsgFile ex_a),
      Send (MsgFileChunk \<lparr> FileChunk.ID = 0, FileChunk.ConnectionID = 7, Data = [1, 2], Seq = 0 \<rparr>),
      Stderr (ErrorReadingFile ex_a), Stdout FinalBar, WgDone ex_a]"
proof -
  have l: "lookup ex_faulty (RelativePath ex_a @ [Name ex_a])
      = Some (Regular ''a.txt'' [1, 2, 3] (ReadFails 1))"
    by (simp add: ex_faulty_def ex_a_def)
  have c: "ReadBufferSize ex_conf = 2" "Config.ConnectionID ex_conf = 7" "File.ID ex_a = 0"
    by (simp_all add: ex_conf_def ex_a_def)
  have r: "replicate 2 (0 :: byte) = [0, 0]"
    by (simp add: numeral_2_eq_2)
  show ?thesis
    unfolding sendFile_def os_Open_FullFilePath l
    by (simp add: c r os_reads_ex read_loop_Fp_Cons [OF refl] ex_progress_def)
qed

lemma sendFile_faulty_b:
  "sendFile ex_progress ex_conf ex_faulty ex_b =
     [Stdout (Header ex_b), Send (MsgFile ex_b), Stdout FinalBar, WgDone ex_b]"
proof -
  have l: "lookup ex_faulty (RelativePath ex_b @ [Name ex_b]) = Some (Regular ''b.txt'' [] NoFault)"
    by (simp add: ex_faulty_def ex_b_def)
  show ?thesis
    unfolding sendFile_def os_Open_FullFilePath l
    by simp
qed

lemma sendFile_ex_fifo:
  "sendFile ex_progress ex_conf ex_pipe ex_fifo =
     [Stdout (Header ex_fifo), Send (MsgFile ex_fifo),
      Send (MsgFileChunk \<lparr> FileChunk.ID = 0, FileChunk.ConnectionID = 7, Data = [1], Seq = 0 \<rparr>),
      Send (MsgFileChunk \<lparr> FileChunk.ID = 0, FileChunk.ConnectionID = 7, Data = [2, 3], Seq = 1 \<rparr>),
      Stdout FinalBar, WgDone ex_fifo]"
proof -
  have l: "lookup ex_pipe (RelativePath ex_fifo @ [Name ex_fifo])
      = Some (Special ''fifo'' 0 (Some [([1], None), ([2, 3], None)]))"
    by (simp add: ex_pipe_def ex_fifo_def)
  have c: "ReadBufferSize ex_conf = 2" "Config.ConnectionID ex_conf = 7" "File.ID ex_fifo = 0"
    by (simp_all add: ex_conf_def ex_fifo_def)
  have r: "replicate 2 (0 :: byte) = [0, 0]"
    by (simp add: numeral_2_eq_2)
  show ?thesis
    unfolding sendFile_def os_Open_FullFilePath l
    by (simp add: c r read_loop_Fp_Cons [OF refl] ex_progress_def)
qed

section \<open>Properties of the session\<close>

lemma RunE_connected:
  "RunE n gp c None root u scheds =
     (if snd (round_loop n (sendFile gp c root) (Threads c) scheds (files (enumerated c root u)))
      then ((Main, Send (MsgConfig c)) # map (Pair Main) (printed (enumerated c root u))
            @ fst (round_loop n (sendFile gp c root) (Threads c) scheds (files (enumerated c root u)))
            @ closing c,
            Returned None)
      else ((Main, Send (MsgConfig c)) # map (Pair Main) (printed (enumerated c root u))
            @ fst (round_loop n (sendFile gp c root) (Threads c) scheds (files (enumerated c root u))),
            Running))"
  by (simp add: RunE_def enumerated_def closing_def Let_def split: prod.splits)

lemma enumerated_files:
  "files (enumerated c root u) = descriptors c u (non_directories (entries [] root))"
  using collect_walk(1) [of "WorkingDirectory c" c "[]" root
      "\<lparr> files = [], next_uuid = u, printed = [] \<rparr>"]
  by (simp add: enumerated_def)

lemma enumerated_printed:
  "e \<in> set (printed (enumerated c root u)) \<Longrightarrow> \<exists>x. e = Stderr x"
  using collect_walk(1) [of "WorkingDirectory c" c "[]" root
      "\<lparr> files = [], next_uuid = u, printed = [] \<rparr>"]
  by (auto simp add: enumerated_def report_def split: sum.splits)

lemma distinct_enumerated: "distinct (files (enumerated c root u))"
  by (simp add: enumerated_files distinct_descriptors)

lemma frames_member: "m \<in> set (frames tr) \<longleftrightarrow> (\<exists>g. (g, Send m) \<in> set tr)"
  by (induction tr rule: frames.induct) auto

lemma round_loop_frames:
  "(g, Send m) \<in> set (fst (round_loop n (sendFile gp c root) t scheds q)) \<Longrightarrow>
     \<exists>f \<in> set q. g = Sender f
       \<and> (m = MsgFile f \<or> (\<exists>ch. m = MsgFileChunk ch \<and> FileChunk.ID ch = File.ID f
                                \<and> FileChunk.ConnectionID ch = Config.ConnectionID c))"
  by (drule round_loop_members) (auto dest: sendFile_sends)

lemma enumerated_ex:
  "files (enumerated ex_conf ex_root 0) = [ex_a, ex_b]"
  "printed (enumerated ex_conf ex_root 0) = []"
  by (simp_all add: enumerated_def ex_conf_def ex_root_def ex_a_def ex_b_def Rel_def)

lemma round_loop_ex:
  "round_loop 2 (sendFile ex_progress ex_conf ex_root) 2 [] [ex_a, ex_b] =
     ((Main, Go ex_a) # (Main, Go ex_b)
      # map (Pair (Sender ex_a)) (sendFile ex_progress ex_conf ex_root ex_a)
      @ map (Pair (Sender ex_b)) (sendFile ex_progress ex_conf ex_root ex_b),
      True)"
proof -
  have "round_loop (Suc (Suc 0)) (sendFile ex_progress ex_conf ex_root) 2 [] [ex_a, ex_b] =
     (round_trace (sendFile ex_progress ex_conf ex_root) [] [ex_a, ex_b] [], True)"
    by (simp add: round_loop_Suc sched_of_def del: round_loop.simps(2))
  then show ?thesis
    by (simp add: round_ex numeral_2_eq_2 del: round_loop.simps(2))
qed

lemma RunE_ex:
  "RunE 2 ex_progress ex_conf None ex_root 0 [] =
     ((Main, Send (MsgConfig ex_conf)) # (Main, Go ex_a) # (Main, Go ex_b)
      # map (Pair (Sender ex_a)) (sendFile ex_progress ex_conf ex_root ex_a)
      @ map (Pair (Sender ex_b)) (sendFile ex_progress ex_conf ex_root ex_b)
      @ closing ex_conf,
      Returned None)"
proof -
  have t: "Threads ex_conf = 2"
    by (simp add: ex_conf_def)
  show ?thesis
    unfolding RunE_connected enumerated_ex t round_loop_ex by simp
qed



lemma read_data_all_good:
  "list_all (\<lambda>r. snd r = None) rs \<Longrightarrow> read_data b rs = map (take b \<circ> fst) rs"
  by (induction rs) auto


lemma sendFile_read_whole:
  assumes "os_Open (ReadBufferSize c) (WorkingDirectory c) root (FullFilePath f c) = (Fp rs, None)"
    and "list_all (\<lambda>r. snd r = None) rs"
  shows "map Data (chunks (sendFile gp c root f)) = map (take (ReadBufferSize c) \<circ> fst) rs"
  using assms read_data_all_good [OF assms(2), of "ReadBufferSize c"]
  by (simp add: chunks_sendFile chunks_read_loop_Data)

lemma lookup_in_member:
  "distinct (map NodeName es) \<Longrightarrow> v \<in> set es \<Longrightarrow> lookup_in es (NodeName v) p = lookup v p"
  by (induction es) (auto simp add: image_iff)

lemma entries_lookup:
  "wf_names d \<Longrightarrow> (p, v) \<in> set (entries q d) \<Longrightarrow>
     \<exists>p'. p = q @ p' \<and> lookup d (p' @ [NodeName v]) = Some v"
proof (induction q d arbitrary: p v rule: entries.induct)
  case (1 q n es)
  from "1.prems"(2) obtain w where w: "w \<in> set es"
    and "(p, v) = (q, w) \<or> (p, v) \<in> set (entries (q @ [NodeName w]) w)"
    by auto
  from this(2) show ?case
  proof
    assume "(p, v) = (q, w)"
    with w "1.prems"(1) show ?thesis
      by (simp add: lookup_in_member)
  next
    assume a: "(p, v) \<in> set (entries (q @ [NodeName w]) w)"
    from "1.prems"(1) w have "wf_names w" by simp
    from "1.IH" [OF w this a] obtain p' where
      "p = (q @ [NodeName w]) @ p'" "lookup w (p' @ [NodeName v]) = Some v"
      by blast
    with w "1.prems"(1) have "p = q @ (NodeName w # p')
        \<and> lookup (Dir n es) ((NodeName w # p') @ [NodeName v]) = Some v"
      by (simp add: lookup_in_member)
    then show ?thesis by blast
  qed
qed simp_all

lemma descriptors_member:
  "f \<in> set (descriptors c u xs) \<Longrightarrow> \<exists>i x. x \<in> set xs \<and> f = descriptor c i x"
proof (induction xs arbitrary: u)
  case Nil
  then show ?case by simp
next
  case (Cons x xs)
  from Cons.prems have "f = descriptor c u x \<or> f \<in> set (descriptors c (Suc u) xs)"
    by simp
  then show ?case
  proof
    assume "f = descriptor c u x"
    then show ?thesis by (intro exI [of _ u] exI [of _ x]) simp
  next
    assume "f \<in> set (descriptors c (Suc u) xs)"
    from Cons.IH [OF this] obtain i y where "y \<in> set xs" "f = descriptor c i y"
      by blast
    then show ?thesis by (intro exI [of _ i] exI [of _ y]) simp
  qed
qed

lemma enumerated_lookup:
  assumes "wf_names root" and "f \<in> set (files (enumerated c root u))"
  shows "\<exists>v. lookup root (RelativePath f @ [Name f]) = Some v \<and> FileSize f = Size v"
proof -
  from assms(2) obtain i x where x: "x \<in> set (non_directories (entries [] root))"
    and f: "f = descriptor c i x"
    unfolding enumerated_files by (blast dest: descriptors_member)
  from x have "(fst x, snd x) \<in> set (entries [] root)"
    by (simp add: non_directories_def)
  from entries_lookup [OF assms(1) this] f show ?thesis
    by (simp add: descriptor_def)
qed

lemma chunks_of_sender:
  assumes "\<And>g ch. (g, Send (MsgFileChunk ch)) \<in> set tr \<Longrightarrow>
             (FileChunk.ID ch = File.ID f \<longleftrightarrow> g = Sender f)"
  shows "filter (\<lambda>ch. FileChunk.ID ch = File.ID f) (chunks (map snd tr))
           = chunks (events_of (Sender f) tr)"
  using assms
proof (induction tr)
  case Nil
  then show ?case by simp
next
  case (Cons x tr)
  obtain g e where x: "x = (g, e)" by (cases x)
  have IH: "filter (\<lambda>ch. FileChunk.ID ch = File.ID f) (chunks (map snd tr))
           = chunks (events_of (Sender f) tr)"
    using Cons.prems by (intro Cons.IH) simp
  show ?case
  proof (cases e)
    case (Send m)
    show ?thesis
    proof (cases m)
      case (MsgFileChunk ch)
      with Send x Cons.prems [of g ch] IH show ?thesis by simp
    qed (use Send x IH in simp_all)
  qed (use x IH in simp_all)
qed

lemma enumerated_ID_inj:
  "f \<in> set (files (enumerated c root u)) \<Longrightarrow> g \<in> set (files (enumerated c root u)) \<Longrightarrow>
     File.ID f = File.ID g \<Longrightarrow> f = g"
proof -
  have "distinct (map File.ID (files (enumerated c root u)))"
    by (simp add: enumerated_files descriptors_ID)
  then have "inj_on File.ID (set (files (enumerated c root u)))"
    by (simp add: distinct_map)
  then show "f \<in> set (files (enumerated c root u)) \<Longrightarrow> g \<in> set (files (enumerated c root u)) \<Longrightarrow>
     File.ID f = File.ID g \<Longrightarrow> f = g"
    by (auto dest: inj_onD)
qed

lemma RunE_trace:
  "fst (RunE n gp c None root u scheds) =
     (Main, Send (MsgConfig c)) # map (Pair Main) (printed (enumerated c root u))
     @ fst (round_loop n (sendFile gp c root) (Threads c) scheds (files (enumerated c root u)))
     @ (if snd (round_loop n (sendFile gp c root) (Threads c) scheds (files (enumerated c root u)))
        then closing c else [])"
  by (simp add: RunE_connected)

lemma RunE_Send_cases:
  assumes "(g, Send m) \<in> set (fst (RunE n gp c None root u scheds))"
  shows "m = MsgConfig c \<or> m = MsgConnectionClose (Config.ConnectionID c)
     \<or> (g, Send m) \<in> set (fst (round_loop n (sendFile gp c root) (Threads c) scheds
                                     (files (enumerated c root u))))"
proof -
  have p: "(g, Send m) \<notin> set (map (Pair Main) (printed (enumerated c root u)))"
    by (auto dest: enumerated_printed)
  have cl: "(g, Send m) \<in> set (closing c) \<Longrightarrow> m = MsgConnectionClose (Config.ConnectionID c)"
    by (simp add: closing_def)
  from assms p cl show ?thesis
    unfolding RunE_trace by (simp split: if_splits) blast+
qed

lemma RunE_chunks_of_sender:
  assumes "f \<in> set (files (enumerated c root u))"
  shows "filter (\<lambda>ch. FileChunk.ID ch = File.ID f) (chunks (map snd (fst (RunE n gp c None root u scheds))))
           = chunks (events_of (Sender f) (fst (RunE n gp c None root u scheds)))"
proof (rule chunks_of_sender)
  fix g ch
  assume "(g, Send (MsgFileChunk ch)) \<in> set (fst (RunE n gp c None root u scheds))"
  then have "(g, Send (MsgFileChunk ch))
      \<in> set (fst (round_loop n (sendFile gp c root) (Threads c) scheds (files (enumerated c root u))))"
    by (blast dest: RunE_Send_cases)
  from round_loop_frames [OF this] obtain f' where
    f': "f' \<in> set (files (enumerated c root u))" "g = Sender f'" "FileChunk.ID ch = File.ID f'"
    by auto
  show "FileChunk.ID ch = File.ID f \<longleftrightarrow> g = Sender f"
  proof
    assume "FileChunk.ID ch = File.ID f"
    with f'(3) have "File.ID f = File.ID f'" by simp
    with assms f'(1) have "f = f'" by (rule enumerated_ID_inj)
    with f'(2) show "g = Sender f" by simp
  next
    assume "g = Sender f"
    with f'(2) have "f' = f" by simp
    with f'(3) show "FileChunk.ID ch = File.ID f" by simp
  qed
qed

lemma RunE_Sender:
  assumes "snd (RunE n gp c None root u scheds) = Returned None"
    and "f \<in> set (files (enumerated c root u))"
  shows "events_of (Sender f) (fst (RunE n gp c None root u scheds)) = sendFile gp c root f"
proof -
  let ?r = "round_loop n (sendFile gp c root) (Threads c) scheds (files (enumerated c root u))"
  from assms(1) have left: "snd ?r"
    by (simp add: RunE_connected split: if_splits)
  from round_loop_Sender [OF distinct_enumerated left assms(2)] left show ?thesis
    unfolding RunE_trace by (simp add: closing_def events_of_def filter_map o_def)
qed

lemma RunE_chunks_for:
  assumes "snd (RunE n gp c None root u scheds) = Returned None"
    and "f \<in> set (files (enumerated c root u))"
  shows "chunks_for f (fst (RunE n gp c None root u scheds)) = chunks (sendFile gp c root f)"
  unfolding chunks_for_def RunE_chunks_of_sender [OF assms(2)] RunE_Sender [OF assms] ..

lemma chunks_for_closing:
  "chunks_for f (body @ [(Main, Stdout ClosingConnection),
                         (Main, Send (MsgConnectionClose cid)),
                         (Main, ConnectionClosed)]) = chunks_for f body"
  by (simp add: chunks_for_def)

lemma events_of_Sender_closing:
  "events_of (Sender f) (body @ [(Main, Stdout ClosingConnection),
                                 (Main, Send (MsgConnectionClose cid)),
                                 (Main, ConnectionClosed)]) = events_of (Sender f) body"
  by simp

lemma RunE_regular_whole:
  assumes "snd (RunE n gp c None root u scheds) = Returned None"
    and "f \<in> set (files (enumerated c root u))"
    and "wf_names root" and "0 < ReadBufferSize c"
    and "lookup root (RelativePath f @ [Name f]) = Some (Regular nm content NoFault)"
  shows "concat (map Data (chunks_for f (fst (RunE n gp c None root u scheds)))) = content"
    and "sum_list (map (length \<circ> Data) (chunks_for f (fst (RunE n gp c None root u scheds))))
           = FileSize f"
proof -
  let ?chs = "chunks_for f (fst (RunE n gp c None root u scheds))"
  have "map Data ?chs = map fst (os_reads (ReadBufferSize c) content)"
    unfolding RunE_chunks_for [OF assms(1,2)] using chunks_sendFile_Regular [OF assms(5,4)] by simp
  then show cont: "concat (map Data ?chs) = content"
    by (simp add: concat_os_reads [OF assms(4)])
  from enumerated_lookup [OF assms(3,2)] assms(5) have "FileSize f = length content"
    by auto
  moreover have "sum_list (map (length \<circ> Data) ?chs) = length (concat (map Data ?chs))"
    by (simp add: length_concat o_def)
  ultimately show "sum_list (map (length \<circ> Data) ?chs) = FileSize f"
    using cont by simp
qed

lemma enumerated_link:
  "files (enumerated ex_conf ex_link 0) = [ex_l]"
  "printed (enumerated ex_conf ex_link 0) = []"
  by (simp_all add: enumerated_def ex_conf_def ex_link_def ex_l_def Rel_def)

lemma RunE_link:
  "RunE 2 ex_progress ex_conf None ex_link 0 [] =
     ((Main, Send (MsgConfig ex_conf)) # (Main, Go ex_l)
      # map (Pair (Sender ex_l)) (sendFile ex_progress ex_conf ex_link ex_l)
      @ closing ex_conf,
      Returned None)"
proof -
  have t: "Threads ex_conf = 2"
    by (simp add: ex_conf_def)
  have "round_loop (Suc (Suc 0)) (sendFile ex_progress ex_conf ex_link) 2 [] [ex_l] =
     (round_trace (sendFile ex_progress ex_conf ex_link) [] [ex_l] [], True)"
    by (simp add: round_loop_Suc sched_of_def del: round_loop.simps(2))
  moreover have "round_trace (sendFile ex_progress ex_conf ex_link) [] [ex_l] [] =
     (Main, Go ex_l) # map (Pair (Sender ex_l)) (sendFile ex_progress ex_conf ex_link ex_l)"
    by (simp add: round_eval sendFile_ex_l)
  ultimately have "round_loop 2 (sendFile ex_progress ex_conf ex_link) 2 [] [ex_l] =
     ((Main, Go ex_l) # map (Pair (Sender ex_l)) (sendFile ex_progress ex_conf ex_link ex_l), True)"
    by (simp add: numeral_2_eq_2 del: round_loop.simps(2))
  then show ?thesis
    unfolding RunE_connected enumerated_link t by simp
qed

lemma enumerated_faulty:
  "files (enumerated ex_conf ex_faulty 0) = [ex_a, ex_b]"
  "printed (enumerated ex_conf ex_faulty 0) = []"
  by (simp_all add: enumerated_def ex_conf_def ex_faulty_def ex_a_def ex_b_def Rel_def)

lemma RunE_faulty:
  "RunE 2 ex_progress ex_conf None ex_faulty 0 [] =
     ((Main, Send (MsgConfig ex_conf)) # (Main, Go ex_a) # (Main, Go ex_b)
      # map (Pair (Sender ex_a)) (sendFile ex_progress ex_conf ex_faulty ex_a)
      @ map (Pair (Sender ex_b)) (sendFile ex_progress ex_conf ex_faulty ex_b)
      @ closing ex_conf,
      Returned None)"
proof -
  have t: "Threads ex_conf = 2"
    by (simp add: ex_conf_def)
  have "round_loop (Suc (Suc 0)) (sendFile ex_progress ex_conf ex_faulty) 2 [] [ex_a, ex_b] =
     (round_trace (sendFile ex_progress ex_conf ex_faulty) [] [ex_a, ex_b] [], True)"
    by (simp add: round_loop_Suc sched_of_def del: round_loop.simps(2))
  moreover have "round_trace (sendFile ex_progress ex_conf ex_faulty) [] [ex_a, ex_b] [] =
     (Main, Go ex_a) # (Main, Go ex_b)
     # map (Pair (Sender ex_a)) (sendFile ex_progress ex_conf ex_faulty ex_a)
     @ map (Pair (Sender ex_b)) (sendFile ex_progress ex_conf ex_faulty ex_b)"
    by (simp add: round_eval sendFile_faulty_a sendFile_faulty_b)
  ultimately have "round_loop 2 (sendFile ex_progress ex_conf ex_faulty) 2 [] [ex_a, ex_b] =
     ((Main, Go ex_a) # (Main, Go ex_b)
      # map (Pair (Sender ex_a)) (sendFile ex_progress ex_conf ex_faulty ex_a)
      @ map (Pair (Sender ex_b)) (sendFile ex_progress ex_conf ex_faulty ex_b), True)"
    by (simp add: numeral_2_eq_2 del: round_loop.simps(2))
  then show ?thesis
    unfolding RunE_connected enumerated_faulty t by simp
qed

section \<open>Properties of the transfer session\<close>

lemma session_inv_step:
  assumes inv: "session_inv encode mss ws st"
    and i: "i < length ws" and c: "can_step (guard st) (ws ! i)"
  shows "session_inv encode mss (ws[i := fst (send_step encode i (ws ! i) st)])
           (snd (send_step encode i (ws ! i) st))"
proof -
  obtain w ms where wi: "ws ! i = (w, ms)" by (cases "ws ! i")
  from inv have len: "length ws = length mss"
    and g: "\<And>j. j < length ws \<Longrightarrow> fst (ws ! j) \<noteq> None \<longleftrightarrow> guard st = Some j"
    and gv: "\<And>j. guard st = Some j \<Longrightarrow> j < length ws"
    and wr: "wire st @ (case guard st of None \<Rightarrow> [] | Some i \<Rightarrow> the (fst (ws ! i)))
         = concat (map (encode \<circ> snd) (sent st))"
    and lg: "\<And>j. j < length ws \<Longrightarrow>
         map snd (filter (\<lambda>x. fst x = j) (sent st)) @ snd (ws ! j) = mss ! j"
    by (simp_all add: session_inv_def)
  show ?thesis
  proof (cases w)
    case None
    with c wi obtain m ms' where ms: "ms = m # ms'" and free: "guard st = None"
      by (cases ms) auto
    from free g have idle: "\<And>j. j < length ws \<Longrightarrow> fst (ws ! j) = None"
      by simp
    have st': "send_step encode i (ws ! i) st
        = ((Some (encode m), ms'), st\<lparr>guard := Some i, sent := sent st @ [(i, m)]\<rparr>)"
      by (simp add: wi None ms)
    show ?thesis
      unfolding st' session_inv_def
    proof (intro conjI allI impI)
      fix j assume j: "j < length (ws[i := fst ((Some (encode m), ms'), st\<lparr>guard := Some i, sent := sent st @ [(i, m)]\<rparr>)])"
      then show "(fst (ws[i := fst ((Some (encode m), ms'), st\<lparr>guard := Some i, sent := sent st @ [(i, m)]\<rparr>)] ! j) \<noteq> None)
          = (guard (snd ((Some (encode m), ms'), st\<lparr>guard := Some i, sent := sent st @ [(i, m)]\<rparr>)) = Some j)"
        using idle [of j] i by (cases "j = i") auto
      from j lg [of j] wi ms i
      show "map snd (filter (\<lambda>x. fst x = j)
                (sent (snd ((Some (encode m), ms'), st\<lparr>guard := Some i, sent := sent st @ [(i, m)]\<rparr>))))
            @ snd (ws[i := fst ((Some (encode m), ms'), st\<lparr>guard := Some i, sent := sent st @ [(i, m)]\<rparr>)] ! j)
            = mss ! j"
        by (cases "j = i") auto
    qed (use len i wr free in auto)
  next
    case (Some bs)
    with wi i g [of i] have held: "guard st = Some i" by simp
    have others: "fst (ws ! j) = None" if "j < length ws" "j \<noteq> i" for j
      using g [OF that(1)] held that(2) by auto
    show ?thesis
    proof (cases bs)
      case Nil
      have st': "send_step encode i (ws ! i) st = ((None, ms), st\<lparr>guard := None\<rparr>)"
        by (simp add: wi Some Nil)
      show ?thesis
        unfolding st' session_inv_def
      proof (intro conjI allI impI)
        fix j assume j: "j < length (ws[i := fst ((None, ms), st\<lparr>guard := None\<rparr>)])"
        then show "(fst (ws[i := fst ((None, ms), st\<lparr>guard := None\<rparr>)] ! j) \<noteq> None)
            = (guard (snd ((None, ms), st\<lparr>guard := None\<rparr>)) = Some j)"
          using others [of j] i by (cases "j = i") auto
        from j lg [of j] wi i
        show "map snd (filter (\<lambda>x. fst x = j) (sent (snd ((None, ms), st\<lparr>guard := None\<rparr>))))
              @ snd (ws[i := fst ((None, ms), st\<lparr>guard := None\<rparr>)] ! j) = mss ! j"
          by (cases "j = i") auto
      qed (use len i wr held wi Some Nil in auto)
    next
      case (Cons b bs')
      have st': "send_step encode i (ws ! i) st = ((Some bs', ms), st\<lparr>wire := wire st @ [b]\<rparr>)"
        by (simp add: wi Some Cons)
      show ?thesis
        unfolding st' session_inv_def
      proof (intro conjI allI impI)
        fix j assume j: "j < length (ws[i := fst ((Some bs', ms), st\<lparr>wire := wire st @ [b]\<rparr>)])"
        then show "(fst (ws[i := fst ((Some bs', ms), st\<lparr>wire := wire st @ [b]\<rparr>)] ! j) \<noteq> None)
            = (guard (snd ((Some bs', ms), st\<lparr>wire := wire st @ [b]\<rparr>)) = Some j)"
          using others [of j] held i by (cases "j = i") auto
        from j lg [of j] wi i
        show "map snd (filter (\<lambda>x. fst x = j) (sent (snd ((Some bs', ms), st\<lparr>wire := wire st @ [b]\<rparr>))))
              @ snd (ws[i := fst ((Some bs', ms), st\<lparr>wire := wire st @ [b]\<rparr>)] ! j) = mss ! j"
          by (cases "j = i") auto
      qed (use len i wr held wi Some Cons gv in auto)
    qed
  qed
qed

lemma session_inv_final:
  assumes inv: "session_inv encode mss ws st" and fin: "\<not> list_ex (can_step (guard st)) ws"
  shows "wire st = concat (map (encode \<circ> snd) (sent st))
       \<and> (\<forall>i < length mss. map snd (filter (\<lambda>x. fst x = i) (sent st)) = mss ! i)"
proof -
  from fin have no: "\<And>j. j < length ws \<Longrightarrow> \<not> can_step (guard st) (ws ! j)"
    by (auto simp add: list_ex_iff)
  have free: "guard st = None"
  proof (rule ccontr)
    assume "guard st \<noteq> None"
    then obtain i where h: "guard st = Some i" by auto
    with inv have "i < length ws" "fst (ws ! i) \<noteq> None"
      by (auto simp add: session_inv_def)
    with no [of i] show False
      by (cases "ws ! i") auto
  qed
  have empty: "snd (ws ! j) = []" if "j < length ws" for j
    using no [OF that] free by (cases "ws ! j"; cases "fst (ws ! j)") auto
  from inv free empty show ?thesis
    by (auto simp add: session_inv_def)
qed

lemma session_run_step:
  "list_ex (can_step (guard st)) ws \<Longrightarrow> i = pick_worker (choice sch) (guard st) ws \<Longrightarrow>
     session_run encode sch ws st =
       session_run encode (tl sch) (ws[i := fst (send_step encode i (ws ! i) st)])
         (snd (send_step encode i (ws ! i) st))"
  by (subst session_run.simps) (simp add: Let_def)

lemma session_run_halt:
  "\<not> list_ex (can_step (guard st)) ws \<Longrightarrow> session_run encode sch ws st = st"
  by (subst session_run.simps) simp

lemma session_run_inv:
  "session_inv encode mss ws st \<Longrightarrow>
     wire (session_run encode sch ws st)
       = concat (map (encode \<circ> snd) (sent (session_run encode sch ws st)))
     \<and> (\<forall>i < length mss.
           map snd (filter (\<lambda>x. fst x = i) (sent (session_run encode sch ws st))) = mss ! i)"
proof (induction encode sch ws st rule: session_run.induct)
  case (1 encode sch ws st)
  show ?case
  proof (cases "list_ex (can_step (guard st)) ws")
    case True
    let ?i = "pick_worker (choice sch) (guard st) ws"
    from pick_worker_ready [OF True] have r: "?i < length ws" "can_step (guard st) (ws ! ?i)"
      by simp_all
    from "1.IH" [OF True refl session_inv_step [OF "1.prems" r]] show ?thesis
      unfolding session_run_step [OF True refl] .
  next
    case False
    from session_inv_final [OF "1.prems" False] show ?thesis
      unfolding session_run_halt [OF False] .
  qed
qed

lemma session_inv_start:
  "session_inv encode mss (map (Pair None) mss) \<lparr> guard = None, wire = [], sent = [] \<rparr>"
  by (simp add: session_inv_def)

lemma session_run_step_eval:
  "list_ex (can_step (guard st)) ws \<Longrightarrow>
     session_run encode sch ws st =
       session_run encode (tl sch)
         (ws[pick_worker (choice sch) (guard st) ws :=
               fst (send_step encode (pick_worker (choice sch) (guard st) ws)
                      (ws ! pick_worker (choice sch) (guard st) ws) st)])
         (snd (send_step encode (pick_worker (choice sch) (guard st) ws)
                 (ws ! pick_worker (choice sch) (guard st) ws) st))"
  by (rule session_run_step) simp_all

lemma send_all_ex:
  "send_all ex_encode [0, 1, 0, 1, 1, 0] [[MsgFile ex_a, MsgFileChunk ex_chunk], [MsgFile ex_b]]
     = \<lparr> guard = None, wire = [2, 0, 2, 1, 3, 2, 1, 2],
         sent = [(0, MsgFile ex_a), (1, MsgFile ex_b), (0, MsgFileChunk ex_chunk)] \<rparr>"
proof -
  have i: "File.ID ex_a = 0" "File.ID ex_b = 1" "Data ex_chunk = [1, 2]"
    by (simp_all add: ex_a_def ex_b_def ex_chunk_def)
  show ?thesis
    unfolding send_all_def
    by (simp add: session_run_step_eval session_run_halt pick_worker_def choice_def i)
qed

section \<open>The claims about sendFile\<close>

text \<open>
  Claim C4: for a descriptor whose source file fails to open, \<^verbatim>\<open>sendFile\<close> reports the
  error and returns without emitting a File frame or a FileChunk frame. The code reports
  the error and goes on: the File frame is sent, the read on the \<^verbatim>\<open>nil\<close> file fails and
  is reported too, and no FileChunk frame is sent. Here is the run on a file that cannot
  be opened.
\<close>

theorem sendFile_open_failure_still_sends_File:
  "sendFile ex_progress ex_conf ex_locked ex_a =
     [Stdout (Header ex_a), Stderr (ErrorOpeningFile ex_a), Send (MsgFile ex_a),
      Stderr (ErrorReadingFile ex_a), Stdout FinalBar, WgDone ex_a]"
  unfolding sendFile_def os_Open_FullFilePath
  by (simp add: ex_conf_def ex_locked_def ex_a_def)

text \<open>
  Claim C9: every FileChunk frame emitted by \<^verbatim>\<open>sendFile\<close> carries at most
  \<^verbatim>\<open>ReadBufferSize\<close> bytes, and only the last chunk of a file may be smaller.

  The payload of a chunk is what the read returned, \<^verbatim>\<open>readBuffer[:n]\<close>, and a read
  may return fewer bytes than the buffer holds before the end of the data: a read of a
  named pipe returns what has been written so far. The pipe below is an entry that
  \<^verbatim>\<open>collectFiles\<close> enumerates; with a buffer of 2 bytes its sender emits a chunk of
  1 byte followed by a chunk of 2 bytes.
\<close>

theorem sendFile_short_read_forwarded:
  "files (enumerated ex_conf ex_pipe 0) = [ex_fifo]
   \<and> ReadBufferSize ex_conf = 2
   \<and> map Data (chunks (sendFile ex_progress ex_conf ex_pipe ex_fifo)) = [[1], [2, 3]]"
  by (simp add: sendFile_ex_fifo)
     (simp add: enumerated_def ex_conf_def ex_pipe_def ex_fifo_def Rel_def)

text \<open>
  Claim C9, amended: every FileChunk frame emitted by \<^verbatim>\<open>sendFile\<close> carries at most
  \<^verbatim>\<open>ReadBufferSize\<close> bytes, whatever the entry and whatever its reads return; and for
  a regular file only the last chunk may be smaller: every chunk but the last carries
  exactly \<^verbatim>\<open>ReadBufferSize\<close> bytes.
\<close>

theorem sendFile_chunk_payload_bound:
  "list_all (\<lambda>ch. length (Data ch) \<le> ReadBufferSize c) (chunks (sendFile gp c root file))
   \<and> (0 < ReadBufferSize c
        \<and> lookup root (RelativePath file @ [Name file]) = Some (Regular n content flt)
      \<longrightarrow> list_all (\<lambda>ch. length (Data ch) = ReadBufferSize c)
            (butlast (chunks (sendFile gp c root file))))"
proof (intro conjI impI)
  show "list_all (\<lambda>ch. length (Data ch) \<le> ReadBufferSize c) (chunks (sendFile gp c root file))"
    unfolding list_all_iff chunks_sendFile
    using chunks_read_loop_bound [where buf = "replicate (ReadBufferSize c) 0"]
    by fastforce
next
  assume a: "0 < ReadBufferSize c
    \<and> lookup root (RelativePath file @ [Name file]) = Some (Regular n content flt)"
  let ?b = "ReadBufferSize c"
  let ?chs = "chunks (sendFile gp c root file)"
  have "set (butlast (map Data ?chs)) \<subseteq> set (butlast (map fst (os_reads ?b content)))"
    using a set_butlast_take [of _ "map fst (os_reads ?b content)"]
    by (cases flt) (simp_all add: chunks_sendFile_Regular take_map)
  then have "\<forall>d \<in> set (butlast (map Data ?chs)). length d = ?b"
    using a os_reads_full by blast
  then show "list_all (\<lambda>ch. length (Data ch) = ?b) (butlast ?chs)"
    by (simp add: list_all_iff map_butlast [symmetric])
qed

theorem sendFile_chunk_payload_bound_witness:
  "list_all (\<lambda>ch. length (Data ch) \<le> 2) (chunks (sendFile ex_progress ex_conf ex_root ex_a))
   \<and> lookup ex_root (RelativePath ex_a @ [Name ex_a]) = Some (Regular ''a.txt'' [1, 2, 3] NoFault)
   \<and> list_all (\<lambda>ch. length (Data ch) = 2)
        (butlast (chunks (sendFile ex_progress ex_conf ex_root ex_a)))
   \<and> map (length \<circ> Data) (chunks (sendFile ex_progress ex_conf ex_root ex_a)) = [2, 1]"
proof -
  have l: "lookup ex_root (RelativePath ex_a @ [Name ex_a]) = Some (Regular ''a.txt'' [1, 2, 3] NoFault)"
    by (simp add: ex_root_def ex_a_def)
  have b: "ReadBufferSize ex_conf = 2"
    by (simp add: ex_conf_def)
  have "map Data (chunks (sendFile ex_progress ex_conf ex_root ex_a)) = [[1, 2], [3]]"
    using chunks_sendFile_Regular [OF l, of ex_conf ex_progress] by (simp add: b os_reads_ex)
  then have "map (length \<circ> Data) (chunks (sendFile ex_progress ex_conf ex_root ex_a)) = [2, 1]"
    by (simp flip: map_map)
  with l b sendFile_chunk_payload_bound [of ex_conf ex_progress ex_root ex_a "''a.txt''" "[1, 2, 3]" NoFault]
  show ?thesis by simp
qed

section \<open>The claim about collectFiles\<close>

text \<open>
  Claim C6: \<^verbatim>\<open>collectFiles\<close> enumerates exactly the regular files under the root, each
  once, with its relative path and size; an unreadable directory is reported and its
  subtree skipped, and the enumeration goes on.

  The code tests \<^verbatim>\<open>v.IsDir()\<close> and nothing else, so it enumerates every entry that is
  not a directory, regular or not. In a directory holding only a symbolic link it makes a
  descriptor for the link, although there is no regular file.
\<close>

theorem collectFiles_enumerates_link:
  "files (collectFiles ex_conf (WorkingDirectory ex_conf) ex_link
            \<lparr> files = [], next_uuid = 0, printed = [] \<rparr>)
     = [\<lparr> File.ID = 0, File.ConnectionID = 7, FileSize = 4, Name = ''link'', RelativePath = [] \<rparr>]
   \<and> regular_files (entries [] ex_link) = []"
  by (simp add: ex_conf_def ex_link_def regular_files_def Rel_def)

text \<open>
  Claim C6, amended: the descriptors are, in listing order, one for every entry that is
  not a directory and is reached through readable directories, with the path of its
  directory relative to the root, its name, its size and a fresh identifier; and what is
  printed is one report for every directory that cannot be read, the root included.
\<close>

theorem collectFiles_enumerates:
  "files (collectFiles c (WorkingDirectory c) root \<lparr> files = [], next_uuid = u, printed = [] \<rparr>)
     = descriptors c u (non_directories (entries [] root))
   \<and> printed (collectFiles c (WorkingDirectory c) root
                 \<lparr> files = [], next_uuid = u, printed = [] \<rparr>)
     = (case ReadDir root of
          Inl err \<Rightarrow> [Stderr (ErrorReading (WorkingDirectory c) err)]
        | Inr fs \<Rightarrow> [])
       @ map (report c) (unreadable_directories (entries [] root))"
  using collect_walk(1) [of "WorkingDirectory c" c "[]" root
      "\<lparr> files = [], next_uuid = u, printed = [] \<rparr>"]
  by simp

theorem collectFiles_enumerates_witness:
  "files (collectFiles ex_conf (WorkingDirectory ex_conf) ex_mixed
            \<lparr> files = [], next_uuid = 0, printed = [] \<rparr>) = [ex_a, ex_b]
   \<and> printed (collectFiles ex_conf (WorkingDirectory ex_conf) ex_mixed
                 \<lparr> files = [], next_uuid = 0, printed = [] \<rparr>)
       = [Stderr (ErrorReading [''data'', ''private''] ErrPermission)]"
  using collectFiles_enumerates [of ex_conf ex_mixed 0]
  by (simp add: ex_mixed_def ex_a_def ex_b_def ex_conf_def descriptor_def report_def
        read_error_def)

section \<open>The claims about the round loop and the session\<close>

text \<open>
  Claim C10: for every finite queue the round loop terminates and dispatches each file
  exactly once, provided the thread count is at least 1: the loop is left within
  \<open>length queue div threads + 1\<close> rounds, and when it is left the main goroutine has
  executed one \<^verbatim>\<open>go sendFile\<close> for every file of the queue, in order. With a thread count
  of 0 the loop takes no file and is not left after any number of rounds.
\<close>

theorem round_loop_terminates:
  "(0 < unat threads \<longrightarrow>
      snd (round_loop (Suc (length queue div unat threads)) prog threads scheds queue)
      \<and> (\<forall>n. snd (round_loop n prog threads scheds queue) \<longrightarrow>
             events_of Main (fst (round_loop n prog threads scheds queue)) = map Go queue))
   \<and> (threads = 0 \<longrightarrow> (\<forall>n. round_loop n prog threads scheds queue = ([], False)))"
  using round_loop_returns [of threads queue "Suc (length queue div unat threads)" prog scheds]
  by (auto simp add: round_loop_Main round_loop_zero_threads simp del: round_loop.simps)

theorem round_loop_terminates_witness:
  "snd (round_loop 2 (sendFile ex_progress ex_conf ex_root) 2 [] [ex_a, ex_b])
   \<and> events_of Main (fst (round_loop 2 (sendFile ex_progress ex_conf ex_root) 2 [] [ex_a, ex_b]))
       = [Go ex_a, Go ex_b]
   \<and> round_loop 5 (sendFile ex_progress ex_conf ex_root) 0 [] [ex_a, ex_b] = ([], False)"
proof -
  let ?prog = "sendFile ex_progress ex_conf ex_root"
  have d: "Suc (length [ex_a, ex_b] div unat (2 :: 16 word)) = 2"
    by simp
  have "0 < unat (2 :: 16 word)"
    by simp
  with round_loop_terminates [of 2 "[ex_a, ex_b]" ?prog "[]"]
  have "snd (round_loop (Suc (length [ex_a, ex_b] div unat (2 :: 16 word))) ?prog 2 [] [ex_a, ex_b])"
    and b: "\<forall>n. snd (round_loop n ?prog 2 [] [ex_a, ex_b]) \<longrightarrow>
           events_of Main (fst (round_loop n ?prog 2 [] [ex_a, ex_b])) = map Go [ex_a, ex_b]"
    by blast+
  then have a: "snd (round_loop 2 ?prog 2 [] [ex_a, ex_b])"
    by (simp only: d)
  with b have "events_of Main (fst (round_loop 2 ?prog 2 [] [ex_a, ex_b])) = map Go [ex_a, ex_b]"
    by blast
  moreover from round_loop_terminates [of 0 "[ex_a, ex_b]" ?prog "[]"]
  have "round_loop 5 ?prog 0 [] [ex_a, ex_b] = ([], False)"
    by blast
  ultimately show ?thesis
    using a by simp
qed

text \<open>
  Claim C8: exactly one Config frame is emitted, and it is the first frame of the
  session: the first event of a run that has connected is the Config frame, and no later
  event is a Config frame, however many rounds have been run.
\<close>

theorem RunE_Config_first:
  "\<exists>rest. fst (RunE n gp c None root u scheds) = (Main, Send (MsgConfig c)) # rest
     \<and> (\<forall>g cfg. (g, Send (MsgConfig cfg)) \<notin> set rest)"
  by (auto simp add: RunE_connected closing_def dest: enumerated_printed round_loop_frames)

text \<open>
  Claim C1: after the queue is drained the sender emits exactly one Close frame followed
  by exactly one ConnectionClose frame before closing the transport, after all files are
  fully sent.

  \<^verbatim>\<open>RunE\<close> sends one message after its loop, the ConnectionClose; it has no statement
  that sends a Close frame. And a file whose read fails is not sent whole when the
  session is closed. Here are the frames of the sample session, and the frames of the
  session in which the reads of \<^verbatim>\<open>a.txt\<close> (3 bytes) fail after the first one: both
  runs return, neither has a Close frame, and the second has sent 2 bytes of \<^verbatim>\<open>a.txt\<close>
  when it sends the ConnectionClose frame.
\<close>

theorem RunE_sample_sessions:
  "snd (RunE 2 ex_progress ex_conf None ex_root 0 []) = Returned None
   \<and> frames (fst (RunE 2 ex_progress ex_conf None ex_root 0 [])) =
     [MsgConfig ex_conf,
      MsgFile ex_a,
      MsgFileChunk \<lparr> FileChunk.ID = 0, FileChunk.ConnectionID = 7, Data = [1, 2], Seq = 0 \<rparr>,
      MsgFileChunk \<lparr> FileChunk.ID = 0, FileChunk.ConnectionID = 7, Data = [3], Seq = 1 \<rparr>,
      MsgFile ex_b,
      MsgConnectionClose 7]
   \<and> MsgClose \<notin> set (frames (fst (RunE 2 ex_progress ex_conf None ex_root 0 [])))
   \<and> snd (RunE 2 ex_progress ex_conf None ex_faulty 0 []) = Returned None
   \<and> frames (fst (RunE 2 ex_progress ex_conf None ex_faulty 0 [])) =
     [MsgConfig ex_conf,
      MsgFile ex_a,
      MsgFileChunk \<lparr> FileChunk.ID = 0, FileChunk.ConnectionID = 7, Data = [1, 2], Seq = 0 \<rparr>,
      MsgFile ex_b,
      MsgConnectionClose 7]
   \<and> FileSize ex_a = 3"
proof -
  have c: "Config.ConnectionID ex_conf = 7"
    by (simp add: ex_conf_def)
  have s: "FileSize ex_a = 3"
    by (simp add: ex_a_def)
  show ?thesis
    unfolding RunE_ex RunE_faulty
    by (simp add: sendFile_ex_a sendFile_ex_b sendFile_faulty_a sendFile_faulty_b closing_def c s)
qed

text \<open>
  Claim C1, amended: a run that returns ends with the ConnectionClose frame and the close
  of the transport. The ConnectionClose frame is the only one of the run and no Close
  frame is emitted at all. By then all files are sent, as far as they can be read: every
  file of the queue has been handed to a sender and every sender has run to its end
  (\<^verbatim>\<open>wg.Done()\<close>); the chunks of a file that is opened and read to its end without
  error carry all that the reads returned; and for a regular file without fault they
  carry the contents of the file, \<^verbatim>\<open>FileSize\<close> bytes in all.
\<close>

theorem RunE_close_sequence:
  assumes "snd (RunE n gp c None root u scheds) = Returned None"
  shows "\<exists>body. fst (RunE n gp c None root u scheds) =
           body @ [(Main, Stdout ClosingConnection),
                   (Main, Send (MsgConnectionClose (Config.ConnectionID c))),
                   (Main, ConnectionClosed)]
         \<and> (\<forall>cid. MsgConnectionClose cid \<notin> set (frames body))
         \<and> MsgClose \<notin> set (frames (fst (RunE n gp c None root u scheds)))
         \<and> (\<forall>f \<in> set (files (enumerated c root u)).
               (Main, Go f) \<in> set body \<and> (Sender f, WgDone f) \<in> set body
               \<and> events_of (Sender f) body = sendFile gp c root f
               \<and> (\<forall>rs. os_Open (ReadBufferSize c) (WorkingDirectory c) root (FullFilePath f c)
                           = (Fp rs, None)
                         \<and> list_all (\<lambda>r. snd r = None) rs
                       \<longrightarrow> map Data (chunks_for f body)
                             = map (take (ReadBufferSize c) \<circ> fst) rs)
               \<and> (\<forall>nm content. wf_names root \<and> 0 < ReadBufferSize c
                       \<and> lookup root (RelativePath f @ [Name f])
                           = Some (Regular nm content NoFault)
                     \<longrightarrow> concat (map Data (chunks_for f body)) = content
                         \<and> sum_list (map (length \<circ> Data) (chunks_for f body)) = FileSize f))"
proof -
  let ?q = "files (enumerated c root u)"
  let ?r = "round_loop n (sendFile gp c root) (Threads c) scheds ?q"
  let ?body = "(Main, Send (MsgConfig c)) # map (Pair Main) (printed (enumerated c root u)) @ fst ?r"
  let ?tr = "fst (RunE n gp c None root u scheds)"
  from assms have left: "snd ?r"
    by (simp add: RunE_connected split: if_splits)
  then have tr: "?tr = ?body @ closing c"
    by (simp add: RunE_connected)
  have 1: "\<forall>cid. MsgConnectionClose cid \<notin> set (frames ?body)"
    by (auto simp add: frames_member dest: enumerated_printed round_loop_frames)
  have 2: "MsgClose \<notin> set (frames (?body @ closing c))"
    by (auto simp add: frames_member closing_def dest: enumerated_printed round_loop_frames)
  have 3: "(Main, Go f) \<in> set ?body \<and> (Sender f, WgDone f) \<in> set ?body" if f: "f \<in> set ?q" for f
  proof
    from f have "Go f \<in> set (events_of Main (fst ?r))"
      by (simp add: round_loop_Main [OF left])
    then show "(Main, Go f) \<in> set ?body"
      by (auto dest: events_of_member)
  next
    have "WgDone f \<in> set (events_of (Sender f) (fst ?r))"
      by (simp add: round_loop_Sender [OF distinct_enumerated left f] sendFile_WgDone)
    then show "(Sender f, WgDone f) \<in> set ?body"
      by (auto dest: events_of_member)
  qed
  have ev: "events_of (Sender f) ?body = sendFile gp c root f" if f: "f \<in> set ?q" for f
    using RunE_Sender [OF assms f] unfolding tr closing_def events_of_Sender_closing .
  have ch: "chunks_for f ?body = chunks (sendFile gp c root f)" if f: "f \<in> set ?q" for f
    using RunE_chunks_for [OF assms f] unfolding tr closing_def chunks_for_closing .
  have 4: "map Data (chunks_for f ?body) = map (take (ReadBufferSize c) \<circ> fst) rs"
    if "f \<in> set ?q"
      and "os_Open (ReadBufferSize c) (WorkingDirectory c) root (FullFilePath f c) = (Fp rs, None)
           \<and> list_all (\<lambda>r. snd r = None) rs" for f rs
    using that by (simp add: ch sendFile_read_whole)
  have 5: "concat (map Data (chunks_for f ?body)) = content
      \<and> sum_list (map (length \<circ> Data) (chunks_for f ?body)) = FileSize f"
    if f: "f \<in> set ?q"
      and a: "wf_names root \<and> 0 < ReadBufferSize c
           \<and> lookup root (RelativePath f @ [Name f]) = Some (Regular nm content NoFault)"
    for f nm content
  proof -
    from a have w: "wf_names root" and b: "0 < ReadBufferSize c"
      and l: "lookup root (RelativePath f @ [Name f]) = Some (Regular nm content NoFault)"
      by simp_all
    from RunE_regular_whole [OF assms f w b l] show ?thesis
      unfolding tr closing_def chunks_for_closing by simp
  qed
  have 6: "\<forall>f \<in> set ?q.
      (Main, Go f) \<in> set ?body \<and> (Sender f, WgDone f) \<in> set ?body
      \<and> events_of (Sender f) ?body = sendFile gp c root f
      \<and> (\<forall>rs. os_Open (ReadBufferSize c) (WorkingDirectory c) root (FullFilePath f c)
                  = (Fp rs, None)
                \<and> list_all (\<lambda>r. snd r = None) rs
              \<longrightarrow> map Data (chunks_for f ?body) = map (take (ReadBufferSize c) \<circ> fst) rs)
      \<and> (\<forall>nm content. wf_names root \<and> 0 < ReadBufferSize c
              \<and> lookup root (RelativePath f @ [Name f]) = Some (Regular nm content NoFault)
            \<longrightarrow> concat (map Data (chunks_for f ?body)) = content
                \<and> sum_list (map (length \<circ> Data) (chunks_for f ?body)) = FileSize f)"
  proof (intro ballI conjI allI impI)
    fix f assume f: "f \<in> set ?q"
    from 3 [OF f] show "(Main, Go f) \<in> set ?body" and "(Sender f, WgDone f) \<in> set ?body"
      by simp_all
    from ev [OF f] show "events_of (Sender f) ?body = sendFile gp c root f" .
  next
    fix f rs assume "f \<in> set ?q"
      and "os_Open (ReadBufferSize c) (WorkingDirectory c) root (FullFilePath f c) = (Fp rs, None)
           \<and> list_all (\<lambda>r. snd r = None) rs"
    then show "map Data (chunks_for f ?body) = map (take (ReadBufferSize c) \<circ> fst) rs"
      by (rule 4)
  next
    fix f nm content assume f: "f \<in> set ?q"
      and a: "wf_names root \<and> 0 < ReadBufferSize c
           \<and> lookup root (RelativePath f @ [Name f]) = Some (Regular nm content NoFault)"
    from 5 [OF f a] show "concat (map Data (chunks_for f ?body)) = content"
      and "sum_list (map (length \<circ> Data) (chunks_for f ?body)) = FileSize f"
      by simp_all
  qed
  have "?tr = ?body @ [(Main, Stdout ClosingConnection),
                   (Main, Send (MsgConnectionClose (Config.ConnectionID c))),
                   (Main, ConnectionClosed)]"
    unfolding tr closing_def ..
  moreover from 2 have "MsgClose \<notin> set (frames ?tr)"
    unfolding tr .
  ultimately show ?thesis
    using 1 6 by (intro exI [of _ ?body] conjI)
qed

theorem RunE_close_sequence_witness:
  "snd (RunE 2 ex_progress ex_conf None ex_root 0 []) = Returned None
   \<and> wf_names ex_root \<and> 0 < ReadBufferSize ex_conf
   \<and> lookup ex_root (RelativePath ex_a @ [Name ex_a]) = Some (Regular ''a.txt'' [1, 2, 3] NoFault)
   \<and> os_Open (ReadBufferSize ex_conf) (WorkingDirectory ex_conf) ex_root (FullFilePath ex_a ex_conf)
       = (Fp [([1, 2], None), ([3], None)], None)
   \<and> (\<exists>body. fst (RunE 2 ex_progress ex_conf None ex_root 0 []) =
           body @ [(Main, Stdout ClosingConnection),
                   (Main, Send (MsgConnectionClose 7)),
                   (Main, ConnectionClosed)]
         \<and> (Main, Go ex_a) \<in> set body \<and> (Sender ex_a, WgDone ex_a) \<in> set body
         \<and> (Main, Go ex_b) \<in> set body \<and> (Sender ex_b, WgDone ex_b) \<in> set body
         \<and> map Data (chunks_for ex_a body) = [[1, 2], [3]]
         \<and> concat (map Data (chunks_for ex_a body)) = [1, 2, 3]
         \<and> sum_list (map (length \<circ> Data) (chunks_for ex_a body)) = 3)"
proof -
  have r: "snd (RunE 2 ex_progress ex_conf None ex_root 0 []) = Returned None"
    by (simp add: RunE_ex)
  have c: "Config.ConnectionID ex_conf = 7" "ReadBufferSize ex_conf = 2"
    by (simp_all add: ex_conf_def)
  have w: "wf_names ex_root"
    by (simp add: ex_root_def)
  have b: "0 < ReadBufferSize ex_conf"
    by (simp add: c)
  have l: "lookup ex_root (RelativePath ex_a @ [Name ex_a]) = Some (Regular ''a.txt'' [1, 2, 3] NoFault)"
    by (simp add: ex_root_def ex_a_def)
  have s: "FileSize ex_a = 3"
    by (simp add: ex_a_def)
  have opn: "os_Open (ReadBufferSize ex_conf) (WorkingDirectory ex_conf) ex_root (FullFilePath ex_a ex_conf)
       = (Fp [([1, 2], None), ([3], None)], None)"
    by (simp add: os_Open_FullFilePath l c os_reads_ex)
  have ok: "list_all (\<lambda>r. snd r = None) [([1, 2], None), ([3 :: byte], None :: error option)]"
    by simp
  from RunE_close_sequence [OF r] obtain body where
    tr: "fst (RunE 2 ex_progress ex_conf None ex_root 0 []) =
           body @ [(Main, Stdout ClosingConnection),
                   (Main, Send (MsgConnectionClose (Config.ConnectionID ex_conf))),
                   (Main, ConnectionClosed)]"
    and all: "\<forall>f \<in> set (files (enumerated ex_conf ex_root 0)).
               (Main, Go f) \<in> set body \<and> (Sender f, WgDone f) \<in> set body
               \<and> events_of (Sender f) body = sendFile ex_progress ex_conf ex_root f
               \<and> (\<forall>rs. os_Open (ReadBufferSize ex_conf) (WorkingDirectory ex_conf) ex_root
                            (FullFilePath f ex_conf) = (Fp rs, None)
                         \<and> list_all (\<lambda>r. snd r = None) rs
                       \<longrightarrow> map Data (chunks_for f body)
                             = map (take (ReadBufferSize ex_conf) \<circ> fst) rs)
               \<and> (\<forall>nm content. wf_names ex_root \<and> 0 < ReadBufferSize ex_conf
                       \<and> lookup ex_root (RelativePath f @ [Name f])
                           = Some (Regular nm content NoFault)
                     \<longrightarrow> concat (map Data (chunks_for f body)) = content
                         \<and> sum_list (map (length \<circ> Data) (chunks_for f body)) = FileSize f)"
    by (elim exE conjE)
  have a: "ex_a \<in> set (files (enumerated ex_conf ex_root 0))"
    and b': "ex_b \<in> set (files (enumerated ex_conf ex_root 0))"
    by (simp_all add: enumerated_ex)
  note A = all [rule_format, OF a]
  note B = all [rule_format, OF b']
  have 1: "(Main, Go ex_a) \<in> set body" and 2: "(Sender ex_a, WgDone ex_a) \<in> set body"
    using A by simp_all
  have 3: "(Main, Go ex_b) \<in> set body" and 4: "(Sender ex_b, WgDone ex_b) \<in> set body"
    using B by simp_all
  note A4 = A [THEN conjunct2, THEN conjunct2, THEN conjunct2, THEN conjunct1]
  note A5 = A [THEN conjunct2, THEN conjunct2, THEN conjunct2, THEN conjunct2]
  from A4 [rule_format, OF conjI, OF opn ok] have 5: "map Data (chunks_for ex_a body) = [[1, 2], [3]]"
    by (simp add: c)
  from A5 [rule_format, of "''a.txt''" "[1, 2, 3]"] w b l
  have "concat (map Data (chunks_for ex_a body)) = [1, 2, 3]
      \<and> sum_list (map (length \<circ> Data) (chunks_for ex_a body)) = FileSize ex_a"
    by simp
  then have 6: "concat (map Data (chunks_for ex_a body)) = [1, 2, 3]"
    and 7: "sum_list (map (length \<circ> Data) (chunks_for ex_a body)) = 3"
    unfolding s by simp_all
  from tr have tr': "fst (RunE 2 ex_progress ex_conf None ex_root 0 []) =
           body @ [(Main, Stdout ClosingConnection),
                   (Main, Send (MsgConnectionClose 7)),
                   (Main, ConnectionClosed)]"
    unfolding c .
  from tr' 1 2 3 4 5 6 7 have "\<exists>body. fst (RunE 2 ex_progress ex_conf None ex_root 0 []) =
           body @ [(Main, Stdout ClosingConnection),
                   (Main, Send (MsgConnectionClose 7)),
                   (Main, ConnectionClosed)]
         \<and> (Main, Go ex_a) \<in> set body \<and> (Sender ex_a, WgDone ex_a) \<in> set body
         \<and> (Main, Go ex_b) \<in> set body \<and> (Sender ex_b, WgDone ex_b) \<in> set body
         \<and> map Data (chunks_for ex_a body) = [[1, 2], [3]]
         \<and> concat (map Data (chunks_for ex_a body)) = [1, 2, 3]
         \<and> sum_list (map (length \<circ> Data) (chunks_for ex_a body)) = 3"
    by (intro exI [of _ body] conjI)
  with r w b l opn show ?thesis
    by (intro conjI)
qed

text \<open>
  Claim C3: the scheduler runs in rounds. Each round takes up to \<open>threads\<close> descriptors
  from the front of the queue and runs one sender for each of them concurrently, and no
  descriptor of a later round is started before every sender of the current round has
  finished: the trace of a loop that was left is the traces of the rounds one after the
  other, round \<open>r\<close> being a concurrent run of the senders of the \<open>r\<close>-th batch of the
  queue; and when a file is in an earlier round than another, its sender's \<^verbatim>\<open>wg.Done()\<close>
  comes before the \<^verbatim>\<open>go\<close> statement of the other.
\<close>

theorem round_barrier:
  assumes "distinct queue"
    and "snd (round_loop n (sendFile gp c root) threads scheds queue)"
  shows "fst (round_loop n (sendFile gp c root) threads scheds queue) =
           concat (map (\<lambda>r. round_trace (sendFile gp c root) (sched_of (drop r scheds))
                               (batch (unat threads) r queue) [])
                     [0 ..< Suc (length queue div unat threads)])
         \<and> (\<forall>i j. i < length queue \<and> j < length queue
                   \<and> i div unat threads < j div unat threads \<longrightarrow>
               (\<exists>pre post.
                   fst (round_loop n (sendFile gp c root) threads scheds queue) = pre @ post
                   \<and> (Sender (queue ! i), WgDone (queue ! i)) \<in> set pre
                   \<and> (Main, Go (queue ! j)) \<notin> set pre
                   \<and> (Main, Go (queue ! j)) \<in> set post))"
  using round_loop_rounds [OF assms(2)] round_loop_barrier [OF assms]
  by blast

theorem round_barrier_witness:
  "distinct [ex_A, ex_B, ex_C]
   \<and> snd (round_loop 2 (sendFile ex_progress ex_conf ex_three) 2 [[1, 0, 2, 1, 2]] [ex_A, ex_B, ex_C])
   \<and> (\<exists>pre post.
         fst (round_loop 2 (sendFile ex_progress ex_conf ex_three) 2 [[1, 0, 2, 1, 2]]
                [ex_A, ex_B, ex_C]) = pre @ post
         \<and> (Sender ex_A, WgDone ex_A) \<in> set pre
         \<and> (Main, Go ex_C) \<notin> set pre \<and> (Main, Go ex_C) \<in> set post)
   \<and> (\<exists>pre post.
         fst (round_loop 2 (sendFile ex_progress ex_conf ex_three) 2 [[1, 0, 2, 1, 2]]
                [ex_A, ex_B, ex_C]) = pre @ post
         \<and> (Sender ex_B, WgDone ex_B) \<in> set pre
         \<and> (Main, Go ex_C) \<notin> set pre \<and> (Main, Go ex_C) \<in> set post)"
proof -
  let ?q = "[ex_A, ex_B, ex_C]"
  let ?tr = "fst (round_loop 2 (sendFile ex_progress ex_conf ex_three) 2 [[1, 0, 2, 1, 2]] ?q)"
  have d: "distinct ?q"
    by (simp add: ex_A_def ex_B_def ex_C_def)
  have l: "snd (round_loop 2 (sendFile ex_progress ex_conf ex_three) 2 [[1, 0, 2, 1, 2]] ?q)"
    by (rule round_loop_returns) simp_all
  from round_barrier [OF d l] have b:
    "\<And>i j. i < length ?q \<Longrightarrow> j < length ?q \<Longrightarrow> i div unat (2 :: 16 word) < j div unat (2 :: 16 word)
       \<Longrightarrow> \<exists>pre post. ?tr = pre @ post \<and> (Sender (?q ! i), WgDone (?q ! i)) \<in> set pre
             \<and> (Main, Go (?q ! j)) \<notin> set pre \<and> (Main, Go (?q ! j)) \<in> set post"
    by blast
  from b [of 0 2] b [of 1 2] d l show ?thesis
    by simp
qed



text \<open>
  Claim C2: for every file that \<^verbatim>\<open>sendFile\<close> opens and reads to the end, the sequence
  numbers of its FileChunk frames are \<open>0, 1, ..., k - 1\<close>, whatever other files are sent
  at the same time, and the payload lengths add up to the declared \<^verbatim>\<open>FileSize\<close>.

  The declared size is the size that \<^verbatim>\<open>ioutil.ReadDir\<close> lists for the entry. For a
  symbolic link that is the size of the link itself, while \<^verbatim>\<open>os.Open\<close> follows the
  link and the reads deliver the file it leads to. In the directory that holds a link
  listed with 4 bytes to a file of 2 bytes, the run returns, the link is opened and read
  to the end without error, and 2 bytes are sent for a declared size of 4.
\<close>

theorem RunE_link_declared_size:
  "snd (RunE 2 ex_progress ex_conf None ex_link 0 []) = Returned None
   \<and> files (enumerated ex_conf ex_link 0) = [ex_l]
   \<and> events_of (Sender ex_l) (fst (RunE 2 ex_progress ex_conf None ex_link 0 [])) =
       [Stdout (Header ex_l), Send (MsgFile ex_l),
        Send (MsgFileChunk \<lparr> FileChunk.ID = 0, FileChunk.ConnectionID = 7, Data = [1, 2], Seq = 0 \<rparr>),
        Stdout FinalBar, WgDone ex_l]
   \<and> sum_list (map (length \<circ> Data)
        (chunks_for ex_l (fst (RunE 2 ex_progress ex_conf None ex_link 0 [])))) = 2
   \<and> FileSize ex_l = 4"
proof -
  have i: "File.ID ex_l = 0" "FileSize ex_l = 4"
    by (simp_all add: ex_l_def)
  show ?thesis
    unfolding RunE_link chunks_for_def
    by (simp add: sendFile_ex_l closing_def enumerated_link i)
qed

text \<open>
  Claim C2, amended. On the wire the chunks of a file are told apart by the file
  identifier they carry. In a run that returns, under any schedule of the goroutines, the
  chunks of every file of the queue are numbered from 0 without gap; and for a regular
  file without fault, in a tree where no two entries of a directory share a name, their
  payloads are the contents of the file, in order, so that their lengths add up to the
  size that \<^verbatim>\<open>collectFiles\<close> recorded.
\<close>

theorem RunE_chunks_contiguous:
  assumes "snd (RunE n gp c None root u scheds) = Returned None"
    and "f \<in> set (files (enumerated c root u))"
  shows "map Seq (chunks_for f (fst (RunE n gp c None root u scheds)))
           = [0 ..< length (chunks_for f (fst (RunE n gp c None root u scheds)))]
         \<and> (wf_names root \<and> 0 < ReadBufferSize c
              \<and> lookup root (RelativePath f @ [Name f]) = Some (Regular nm content NoFault)
            \<longrightarrow> sum_list (map (length \<circ> Data)
                    (chunks_for f (fst (RunE n gp c None root u scheds)))) = FileSize f
                \<and> concat (map Data (chunks_for f (fst (RunE n gp c None root u scheds))))
                    = content)"
proof (intro conjI impI)
  let ?chs = "chunks_for f (fst (RunE n gp c None root u scheds))"
  have chs: "?chs = chunks (sendFile gp c root f)"
    unfolding chunks_for_def RunE_chunks_of_sender [OF assms(2)] RunE_Sender [OF assms] ..
  show "map Seq ?chs = [0 ..< length ?chs]"
    unfolding chs chunks_sendFile using chunks_read_loop_Seq [where k = 0] by simp
  assume a: "wf_names root \<and> 0 < ReadBufferSize c
    \<and> lookup root (RelativePath f @ [Name f]) = Some (Regular nm content NoFault)"
  then have w: "wf_names root" and b: "0 < ReadBufferSize c"
    and l: "lookup root (RelativePath f @ [Name f]) = Some (Regular nm content NoFault)"
    by simp_all
  have "map Data ?chs = map fst (os_reads (ReadBufferSize c) content)"
    unfolding chs using chunks_sendFile_Regular [OF l b] by simp
  then show cont: "concat (map Data ?chs) = content"
    by (simp add: concat_os_reads [OF b])
  from enumerated_lookup [OF w assms(2)] l have "FileSize f = length content"
    by auto
  moreover have "sum_list (map (length \<circ> Data) ?chs) = length (concat (map Data ?chs))"
    by (simp add: length_concat o_def)
  ultimately show "sum_list (map (length \<circ> Data) ?chs) = FileSize f"
    using cont by simp
qed

theorem RunE_chunks_contiguous_witness:
  "snd (RunE 2 ex_progress ex_conf None ex_root 0 []) = Returned None
   \<and> ex_a \<in> set (files (enumerated ex_conf ex_root 0))
   \<and> wf_names ex_root \<and> 0 < ReadBufferSize ex_conf
   \<and> lookup ex_root (RelativePath ex_a @ [Name ex_a]) = Some (Regular ''a.txt'' [1, 2, 3] NoFault)
   \<and> map Seq (chunks_for ex_a (fst (RunE 2 ex_progress ex_conf None ex_root 0 []))) = [0, 1]
   \<and> sum_list (map (length \<circ> Data)
        (chunks_for ex_a (fst (RunE 2 ex_progress ex_conf None ex_root 0 [])))) = 3
   \<and> concat (map Data (chunks_for ex_a (fst (RunE 2 ex_progress ex_conf None ex_root 0 []))))
       = [1, 2, 3]"
proof -
  have r: "snd (RunE 2 ex_progress ex_conf None ex_root 0 []) = Returned None"
    by (simp add: RunE_ex)
  have w: "wf_names ex_root"
    by (simp add: ex_root_def)
  have m: "ex_a \<in> set (files (enumerated ex_conf ex_root 0))"
    by (simp add: enumerated_ex)
  have l: "lookup ex_root (RelativePath ex_a @ [Name ex_a]) = Some (Regular ''a.txt'' [1, 2, 3] NoFault)"
    by (simp add: ex_root_def ex_a_def)
  have b: "0 < ReadBufferSize ex_conf"
    by (simp add: ex_conf_def)
  have len: "length (chunks_for ex_a (fst (RunE 2 ex_progress ex_conf None ex_root 0 []))) = 2"
  proof -
    have "File.ID ex_a = 0"
      by (simp add: ex_a_def)
    then show ?thesis
      unfolding chunks_for_def RunE_ex sendFile_ex_a sendFile_ex_b
      by (simp add: closing_def)
  qed
  have s: "FileSize ex_a = 3"
    by (simp add: ex_a_def)
  note th = RunE_chunks_contiguous [OF r m, of "''a.txt''" "[1, 2, 3]"]
  from th [THEN conjunct1] have 1:
    "map Seq (chunks_for ex_a (fst (RunE 2 ex_progress ex_conf None ex_root 0 []))) = [0, 1]"
    unfolding len by (simp add: upt_rec)
  from th [THEN conjunct2] w b l have 23:
    "sum_list (map (length \<circ> Data)
        (chunks_for ex_a (fst (RunE 2 ex_progress ex_conf None ex_root 0 [])))) = FileSize ex_a
     \<and> concat (map Data (chunks_for ex_a (fst (RunE 2 ex_progress ex_conf None ex_root 0 []))))
       = [1, 2, 3]"
    by blast
  from 23 have 2: "sum_list (map (length \<circ> Data)
        (chunks_for ex_a (fst (RunE 2 ex_progress ex_conf None ex_root 0 [])))) = 3"
    unfolding s by (rule conjunct1)
  note 3 = 23 [THEN conjunct2]
  from r m w b l 1 2 3 show ?thesis
    by (intro conjI)
qed

section \<open>The claim about the transfer session\<close>

text \<open>
  Claim C5: when two or more workers send through the same session, every frame on the
  byte stream is intact: the bytes of no frame are interleaved, split or merged with those
  of another, because a whole frame is written while the guard is held. Whatever the
  schedule, once all workers are done the wire is the frames that were begun, each whole
  and one after the other, and the frames of each worker are the messages it was given, in
  the order it sent them.
\<close>

theorem frames_atomic:
  "wire (send_all encode sch mss)
     = concat (map (encode \<circ> snd) (sent (send_all encode sch mss)))
   \<and> (\<forall>i < length mss.
         map snd (filter (\<lambda>x. fst x = i) (sent (send_all encode sch mss))) = mss ! i)"
  unfolding send_all_def by (rule session_run_inv [OF session_inv_start])

theorem frames_atomic_witness:
  "wire (send_all ex_encode [0, 1, 0, 1, 1, 0]
           [[MsgFile ex_a, MsgFileChunk ex_chunk], [MsgFile ex_b]])
     = ex_encode (MsgFile ex_a) @ ex_encode (MsgFile ex_b) @ ex_encode (MsgFileChunk ex_chunk)
   \<and> map snd (filter (\<lambda>x. fst x = 0)
        (sent (send_all ex_encode [0, 1, 0, 1, 1, 0]
                 [[MsgFile ex_a, MsgFileChunk ex_chunk], [MsgFile ex_b]])))
       = [MsgFile ex_a, MsgFileChunk ex_chunk]
   \<and> map snd (filter (\<lambda>x. fst x = 1)
        (sent (send_all ex_encode [0, 1, 0, 1, 1, 0]
                 [[MsgFile ex_a, MsgFileChunk ex_chunk], [MsgFile ex_b]])))
       = [MsgFile ex_b]"
  using frames_atomic [of ex_encode "[0, 1, 0, 1, 1, 0]"
      "[[MsgFile ex_a, MsgFileChunk ex_chunk], [MsgFile ex_b]]"]
  unfolding send_all_ex by simp

end
